theory Spec2Isabelle
  imports Complex_Main
begin

section \<open>Data model of the migrations package\<close>

text \<open>
  The engine is the class \<open>Migrations\<close>. Logging is a sink without influence on control
  flow and is left out.

  A JavaScript number is a finite number, an infinity or \<open>NaN\<close>. The finite ones are
  modelled by the rationals: every finite double is one, and the code only compares
  versions and takes the sign of a difference, both exact on finite doubles.
\<close>

datatype number = Num rat | PosInf | NegInf | NaN

datatype direction = Up | Down

text \<open>The argument of \<open>migrateTo\<close>, of type \<open>string | number\<close>.\<close>

datatype command = CmdNumber number | CmdString string

text \<open>
  Every value the code throws or catches. The constructors stand for
  \<open>new Error(message)\<close> with the message of the throw site; \<open>UserError\<close> is an
  \<open>Error\<close> instance thrown by a migration action, \<open>UserValue\<close> a thrown value that is
  not an \<open>Error\<close> (given by its \<open>String()\<close> rendering), \<open>DbError\<close> a rejection of
  a call to the database driver.
\<close>

datatype exn =
    DatabaseNotSetCallFirst
  | DatabaseNotSet
  | InvalidCommand command
  | MustSupplyUp
  | MustSupplyVersion
  | VersionMustBeGreaterThan0
  | ControlLocked
  | IndexNotFound int
  | CannotMigrate direction number
  | CantFindVersion number
  | UserError string
  | UserValue string
  | DbError string

text \<open>A migration action, by what awaiting its call does.\<close>

datatype action = Resolves | Throws exn

text \<open>
  \<open>MigrationArg\<close> is the object handed to \<open>add\<close> as JavaScript may supply it:
  \<open>arg_version = None\<close> when \<open>typeof migration.version\<close> is not \<open>'number'\<close>
  (\<open>NaN\<close> and the infinities are of type \<open>'number'\<close>), and
  \<open>arg_up = None\<close> when \<open>typeof migration.up\<close> is not \<open>'function'\<close>.
  \<open>Migration\<close> is the stored object.
\<close>

record MigrationArg =
  arg_version :: "number option"
  arg_name :: "string option"
  arg_up :: "action option"
  arg_down :: "action option"

record Migration =
  version :: number
  name :: "string option"
  up :: "action option"
  down :: "action option"

text \<open>The control document \<open>{ _id: 'control', version, locked, lockedAt? }\<close>.\<close>

record ControlDocument =
  control_version :: number
  locked :: bool
  lockedAt :: "nat option"

datatype target = Latest | Version number

record MigrationCommand =
  command_version :: target
  subcommand :: "string option"

record MigrationResult =
  success :: bool
  fromVersion :: number
  toVersion :: number
  migrationsRun :: nat
  error :: "exn option"

text \<open>The fields of a \<open>Migrations\<close> instance that the engine reads.\<close>

record Migrations =
  migrations :: "Migration list"
  dbConnection :: bool

text \<open>
  What happens outside the instance: every call to the driver and every invocation of a
  migration action is appended to \<open>trace\<close>; \<open>EvRejected\<close> follows a driver call that
  rejected.
\<close>

datatype event =
    EvFindOne
  | EvSetControl
  | EvLock
  | EvUnlock
  | EvUpdateVersion number
  | EvRejected string
  | EvRun direction Migration

text \<open>
  The world: the control document of the collection (if present), the script of the
  driver (the outcome of the coming calls, \<open>Some msg\<close> for a call that rejects; calls
  beyond the script succeed), the trace and the clock read by \<open>new Date()\<close>.
\<close>

record world =
  collection :: "ControlDocument option"
  faults :: "string option list"
  trace :: "event list"
  now :: nat

datatype outcome = Returned MigrationResult | Thrown exn | ProcessExit nat

section \<open>JavaScript helpers\<close>

definition element_at :: "'a list \<Rightarrow> int \<Rightarrow> 'a option" where
  "element_at xs i = (if 0 \<le> i \<and> i < int (length xs) then Some (xs ! nat i) else None)"

fun findIndex :: "('a \<Rightarrow> bool) \<Rightarrow> 'a list \<Rightarrow> int" where
  "findIndex P [] = - 1"
| "findIndex P (x # xs) =
     (if P x then 0 else (let i = findIndex P xs in if i = - 1 then - 1 else i + 1))"

text \<open>
  The comparisons \<open><\<close>, \<open><=\<close> and \<open>===\<close> of two numbers: each is false when an operand is
  \<open>NaN\<close>.
\<close>

fun number_less :: "number \<Rightarrow> number \<Rightarrow> bool" where
  "number_less (Num x) (Num y) = (x < y)"
| "number_less (Num x) PosInf = True"
| "number_less NegInf (Num y) = True"
| "number_less NegInf PosInf = True"
| "number_less a b = False"

definition strict_equal :: "number \<Rightarrow> number \<Rightarrow> bool" where
  "strict_equal a b = (a \<noteq> NaN \<and> a = b)"

definition number_le :: "number \<Rightarrow> number \<Rightarrow> bool" where
  "number_le a b = (number_less a b \<or> strict_equal a b)"

text \<open>
  The comparator \<open>(a, b) => a.version - b.version\<close> as \<open>Array.prototype.sort\<close> reads
  it: the sign of the difference, and \<open>0\<close> when the difference is \<open>NaN\<close> (an operand is
  \<open>NaN\<close>, or both are the same infinity).
\<close>

definition sort_compare :: "number \<Rightarrow> number \<Rightarrow> int" where
  "sort_compare a b = (if number_less a b then - 1 else if number_less b a then 1 else 0)"

text \<open>
  \<open>Array.prototype.sort\<close> with that comparator, as a stable insertion sort. On versions
  without \<open>NaN\<close> the comparator is consistent and every stable sort gives this result.
  With a \<open>NaN\<close> among the versions the comparator is not consistent and ECMAScript
  leaves the order to the implementation: nothing is proved of the order then.
\<close>

fun insert_by_version :: "Migration \<Rightarrow> Migration list \<Rightarrow> Migration list" where
  "insert_by_version x [] = [x]"
| "insert_by_version x (y # ys) =
     (if sort_compare (version x) (version y) \<le> 0 then x # y # ys
      else y # insert_by_version x ys)"

definition sort_by_version :: "Migration list \<Rightarrow> Migration list" where
  "sort_by_version ms = foldr insert_by_version ms []"

fun split :: "char \<Rightarrow> string \<Rightarrow> string list" where
  "split c [] = [[]]"
| "split c (x # xs) =
     (if x = c then [] # split c xs
      else (case split c xs of [] \<Rightarrow> [[x]] | p # ps \<Rightarrow> (x # p) # ps))"

text \<open>
  A string is a list of code units below \<open>256\<close>. The white space and line terminators
  of ECMAScript in that range, which \<open>trim\<close> and \<open>parseInt\<close> strip, are the
  characters \<open>9\<close> to \<open>13\<close>, the space and the no-break space \<open>160\<close>.
\<close>

definition is_space :: "char \<Rightarrow> bool" where
  "is_space c = (c \<in> {CHR '' '', CHR 0x09, CHR 0x0A, CHR 0x0B, CHR 0x0C, CHR 0x0D, CHR 0xA0})"

definition trim :: "string \<Rightarrow> string" where
  "trim s = rev (dropWhile is_space (rev (dropWhile is_space s)))"

definition is_digit :: "char \<Rightarrow> bool" where
  "is_digit c = (of_char CHR ''0'' \<le> (of_char c :: nat) \<and> (of_char c :: nat) \<le> of_char CHR ''9'')"

definition digit_value :: "char \<Rightarrow> nat" where
  "digit_value c = of_char c - of_char CHR ''0''"

text \<open>
  The Number value of a natural number: the number itself below \<open>2^53\<close>, and above
  that the nearest number with \<open>53\<close> significant bits, the even one of two that are
  equally near, or \<open>Infinity\<close> when that is \<open>2^1024\<close> or more.
\<close>

fun bit_length :: "nat \<Rightarrow> nat" where
  "bit_length n = (if n = 0 then 0 else Suc (bit_length (n div 2)))"

definition to_double :: "nat \<Rightarrow> number" where
  "to_double n =
     (if n < 2 ^ 53 then Num (of_nat n)
      else (let sh = bit_length n - 53;
                q = n div 2 ^ sh;
                r = n mod 2 ^ sh;
                m = (if 2 ^ (sh - 1) < r \<or> (r = 2 ^ (sh - 1) \<and> odd q) then q + 1 else q)
            in if 2 ^ 1024 \<le> m * 2 ^ sh then PosInf else Num (of_nat (m * 2 ^ sh))))"

text \<open>
  \<open>parseInt(s, 10)\<close>: leading white space, a sign, the longest run of digits, and the
  Number value of that integer with the sign; \<open>NaN\<close> when there is no digit. (Beyond
  \<open>20\<close> significant digits ECMAScript lets an implementation replace the later digits
  by \<open>0\<close> before rounding; the model rounds the exact integer.)
\<close>

definition parseInt :: "string \<Rightarrow> number" where
  "parseInt s =
     (let s1 = dropWhile is_space s;
          negative = (case s1 of c # _ \<Rightarrow> c = CHR ''-'' | [] \<Rightarrow> False);
          s2 = (case s1 of c # r \<Rightarrow> (if c = CHR ''-'' \<or> c = CHR ''+'' then r else s1)
                | [] \<Rightarrow> s1);
          ds = takeWhile is_digit s2;
          n = foldl (\<lambda>acc c. 10 * acc + digit_value c) 0 ds
      in if ds = [] then NaN
         else (case to_double n of
                 Num x \<Rightarrow> Num (if negative then - x else x)
               | PosInf \<Rightarrow> (if negative then NegInf else PosInf)
               | other \<Rightarrow> other))"

definition as_Error :: "exn \<Rightarrow> exn" where
  "as_Error e = (case e of UserValue s \<Rightarrow> UserError s | _ \<Rightarrow> e)"

section \<open>The database driver\<close>

text \<open>
  One call on the collection: it is traced, then either rejects as the script says,
  leaving the collection as it is, or applies \<open>f\<close> to the control document.
\<close>

definition db_call ::
  "event \<Rightarrow> (ControlDocument option \<Rightarrow> 'a \<times> ControlDocument option) \<Rightarrow> world
     \<Rightarrow> (exn + 'a) \<times> world" where
  "db_call ev f w =
     (case faults w of
        Some msg # rest \<Rightarrow>
          (Inl (DbError msg),
           w\<lparr>faults := rest, trace := trace w @ [ev, EvRejected msg]\<rparr>)
      | None # rest \<Rightarrow>
          (case f (collection w) of
             (r, c) \<Rightarrow> (Inr r, w\<lparr>faults := rest, trace := trace w @ [ev], collection := c\<rparr>))
      | [] \<Rightarrow>
          (case f (collection w) of
             (r, c) \<Rightarrow> (Inr r, w\<lparr>trace := trace w @ [ev], collection := c\<rparr>)))"

section \<open>The class Migrations\<close>

definition setDatabase :: "Migrations \<Rightarrow> Migrations" where
  "setDatabase E = E\<lparr>dbConnection := True\<rparr>"

definition add :: "Migrations \<Rightarrow> MigrationArg \<Rightarrow> (exn + unit) \<times> Migrations" where
  "add E migration =
     (case arg_up migration of
        None \<Rightarrow> (Inl MustSupplyUp, E)
      | Some u \<Rightarrow>
         (case arg_version migration of
            None \<Rightarrow> (Inl MustSupplyVersion, E)
          | Some v \<Rightarrow>
             if number_le v (Num 0) then (Inl VersionMustBeGreaterThan0, E)
             else (Inr (),
                   E\<lparr>migrations :=
                       sort_by_version
                         (migrations E @
                          [\<lparr>version = v, name = arg_name migration, up = Some u,
                            down = arg_down migration\<rparr>])\<rparr>)))"

definition parseCommand :: "command \<Rightarrow> MigrationCommand" where
  "parseCommand cmd =
     (case cmd of
        CmdNumber n \<Rightarrow> \<lparr>command_version = Version n, subcommand = None\<rparr>
      | CmdString s \<Rightarrow>
         (let parts = split CHR '','' s;
              v = (case element_at parts 0 of Some p \<Rightarrow> trim p | None \<Rightarrow> []);
              sub = map_option trim (element_at parts 1)
          in \<lparr>command_version = (if v = ''latest'' then Latest else Version (parseInt v)),
              subcommand = sub\<rparr>))"

definition findIndexByVersion :: "Migrations \<Rightarrow> number \<Rightarrow> exn + int" where
  "findIndexByVersion E v =
     (if strict_equal v (Num 0) then Inr (- 1)
      else (let index = findIndex (\<lambda>m. strict_equal (version m) v) (migrations E)
            in if index = - 1 then Inl (CantFindVersion v) else Inr index))"

definition runMigration ::
  "Migrations \<Rightarrow> direction \<Rightarrow> int \<Rightarrow> world \<Rightarrow> (exn + unit) \<times> world" where
  "runMigration E dir idx w =
     (case element_at (migrations E) idx of
        None \<Rightarrow> (Inl (IndexNotFound idx), w)
      | Some migration \<Rightarrow>
         (case (case dir of Up \<Rightarrow> up migration | Down \<Rightarrow> down migration) of
            None \<Rightarrow> (Inl (CannotMigrate dir (version migration)), w)
          | Some a \<Rightarrow>
             (case a of
                Resolves \<Rightarrow> (Inr (), w\<lparr>trace := trace w @ [EvRun dir migration]\<rparr>)
              | Throws e \<Rightarrow> (Inl e, w\<lparr>trace := trace w @ [EvRun dir migration]\<rparr>))))"

definition lock :: "Migrations \<Rightarrow> world \<Rightarrow> (exn + bool) \<times> world" where
  "lock E w =
     (if \<not> dbConnection E then (Inl DatabaseNotSet, w)
      else (case db_call EvLock
                   (\<lambda>c. case c of
                          None \<Rightarrow> (0 :: nat, None)
                        | Some d \<Rightarrow>
                            if locked d then (0, Some d)
                            else (1, Some (d\<lparr>locked := True, lockedAt := Some (now w)\<rparr>))) w of
              (Inl e, w1) \<Rightarrow> (Inl e, w1)
            | (Inr modifiedCount, w1) \<Rightarrow> (Inr (modifiedCount = 1), w1)))"

definition unlock :: "Migrations \<Rightarrow> world \<Rightarrow> (exn + unit) \<times> world" where
  "unlock E w =
     (if \<not> dbConnection E then (Inl DatabaseNotSetCallFirst, w)
      else db_call EvUnlock
             (\<lambda>c. ((), map_option (\<lambda>d. d\<lparr>locked := False\<rparr>) c)) w)"

definition updateVersion :: "Migrations \<Rightarrow> number \<Rightarrow> world \<Rightarrow> (exn + unit) \<times> world" where
  "updateVersion E v w =
     (if \<not> dbConnection E then (Inl DatabaseNotSet, w)
      else db_call (EvUpdateVersion v)
             (\<lambda>c. ((), map_option (\<lambda>d. d\<lparr>control_version := v\<rparr>) c)) w)"

definition priv_setControl ::
  "Migrations \<Rightarrow> number \<Rightarrow> bool \<Rightarrow> world \<Rightarrow> (exn + ControlDocument) \<times> world" where
  "priv_setControl E v l w =
     (if \<not> dbConnection E then (Inl DatabaseNotSet, w)
      else (let controlDoc = \<lparr>control_version = v, locked = l, lockedAt = None\<rparr>
            in db_call EvSetControl
                 (\<lambda>c. (controlDoc,
                        (case c of
                           None \<Rightarrow> Some controlDoc
                         | Some d \<Rightarrow> Some (d\<lparr>control_version := v, locked := l\<rparr>)))) w))"

definition priv_getControl :: "Migrations \<Rightarrow> world \<Rightarrow> (exn + ControlDocument) \<times> world" where
  "priv_getControl E w =
     (if \<not> dbConnection E then (Inl DatabaseNotSet, w)
      else (case db_call EvFindOne (\<lambda>c. (c, c)) w of
              (Inl e, w1) \<Rightarrow> (Inl e, w1)
            | (Inr (Some control), w1) \<Rightarrow> (Inr control, w1)
            | (Inr None, w1) \<Rightarrow> priv_setControl E (Num 0) False w1))"

definition getVersion :: "Migrations \<Rightarrow> world \<Rightarrow> (exn + number) \<times> world" where
  "getVersion E w =
     (if \<not> dbConnection E then (Inl DatabaseNotSetCallFirst, w)
      else (case priv_getControl E w of
              (Inl e, w1) \<Rightarrow> (Inl e, w1)
            | (Inr control, w1) \<Rightarrow> (Inr (control_version control), w1)))"

text \<open>
  The two \<open>for\<close> loops of \<open>_migrateTo\<close>. They return the exception that left the loop,
  if any, with the value of the local \<open>migrationsRun\<close> at that moment, which the
  \<open>catch\<close> clause reads.
\<close>

function up_loop ::
  "Migrations \<Rightarrow> int \<Rightarrow> int \<Rightarrow> nat \<Rightarrow> world \<Rightarrow> (exn option \<times> nat) \<times> world" where
  "up_loop E i endIdx run w =
     (if i \<le> endIdx then
        (case runMigration E Up i w of
           (Inl e, w1) \<Rightarrow> ((Some e, run), w1)
         | (Inr _, w1) \<Rightarrow>
            (case (case element_at (migrations E) i of
                     Some migration \<Rightarrow> updateVersion E (version migration) w1
                   | None \<Rightarrow> (Inr (), w1)) of
               (Inl e, w2) \<Rightarrow> ((Some e, run), w2)
             | (Inr _, w2) \<Rightarrow> up_loop E (i + 1) endIdx (run + 1) w2))
      else ((None, run), w))"
  by pat_completeness auto
termination
  by (relation "measure (\<lambda>(E, i, endIdx, run, w). nat (endIdx + 1 - i))") auto

function down_loop ::
  "Migrations \<Rightarrow> int \<Rightarrow> int \<Rightarrow> nat \<Rightarrow> world \<Rightarrow> (exn option \<times> nat) \<times> world" where
  "down_loop E i targetIdx run w =
     (if i > targetIdx then
        (case runMigration E Down i w of
           (Inl e, w1) \<Rightarrow> ((Some e, run), w1)
         | (Inr _, w1) \<Rightarrow>
            (case updateVersion E
                    (case element_at (migrations E) (i - 1) of
                       Some prevMigration \<Rightarrow> version prevMigration
                     | None \<Rightarrow> Num 0) w1 of
               (Inl e, w2) \<Rightarrow> ((Some e, run), w2)
             | (Inr _, w2) \<Rightarrow> down_loop E (i - 1) targetIdx (run + 1) w2))
      else ((None, run), w))"
  by pat_completeness auto
termination
  by (relation "measure (\<lambda>(E, i, targetIdx, run, w). nat (i - targetIdx))") auto

text \<open>The body of the \<open>try\<close> block, up to and including its \<open>await this.unlock()\<close>.\<close>

definition apply_phase ::
  "Migrations \<Rightarrow> number \<Rightarrow> number \<Rightarrow> bool \<Rightarrow> world \<Rightarrow> (exn option \<times> nat) \<times> world" where
  "apply_phase E currentVersion v rerun w =
     (if rerun then
        (case findIndexByVersion E v of
           Inl e \<Rightarrow> ((Some e, 0), w)
         | Inr idx \<Rightarrow>
            (case runMigration E Up idx w of
               (Inl e, w1) \<Rightarrow> ((Some e, 0), w1)
             | (Inr _, w1) \<Rightarrow> ((None, 1), w1)))
      else
        (case findIndexByVersion E currentVersion of
           Inl e \<Rightarrow> ((Some e, 0), w)
         | Inr startIdx \<Rightarrow>
            (case findIndexByVersion E v of
               Inl e \<Rightarrow> ((Some e, 0), w)
             | Inr endIdx \<Rightarrow>
                if number_less currentVersion v then
                  up_loop E (startIdx + 1) endIdx 0 w
                else
                  (let targetIdx = (if endIdx = - 1 then - 1 else endIdx)
                   in down_loop E startIdx targetIdx 0 w))))"

definition try_block ::
  "Migrations \<Rightarrow> number \<Rightarrow> number \<Rightarrow> bool \<Rightarrow> world \<Rightarrow> (exn option \<times> nat) \<times> world" where
  "try_block E currentVersion v rerun w =
     (case apply_phase E currentVersion v rerun w of
        ((Some e, run), w1) \<Rightarrow> ((Some e, run), w1)
      | ((None, run), w1) \<Rightarrow>
         (case unlock E w1 of
            (Inl e, w2) \<Rightarrow> ((Some e, run), w2)
          | (Inr _, w2) \<Rightarrow> ((None, run), w2)))"

definition priv_migrateTo ::
  "Migrations \<Rightarrow> number \<Rightarrow> bool \<Rightarrow> world \<Rightarrow> (exn + MigrationResult) \<times> world" where
  "priv_migrateTo E v rerun w =
     (if \<not> dbConnection E then (Inl DatabaseNotSet, w)
      else
       (case priv_getControl E w of
          (Inl e, w0) \<Rightarrow> (Inl e, w0)
        | (Inr control, w0) \<Rightarrow>
           (let currentVersion = control_version control in
            if \<not> rerun \<and> strict_equal currentVersion v then
              (Inr \<lparr>success = True, fromVersion = currentVersion, toVersion = v,
                    migrationsRun = 0, error = None\<rparr>, w0)
            else
             (case lock E w0 of
                (Inl e, w1) \<Rightarrow> (Inl e, w1)
              | (Inr acquired, w1) \<Rightarrow>
                 if \<not> acquired then
                   (Inr \<lparr>success = False, fromVersion = currentVersion, toVersion = v,
                         migrationsRun = 0, error = Some ControlLocked\<rparr>, w1)
                 else
                  (case try_block E currentVersion v rerun w1 of
                     ((None, run), w2) \<Rightarrow>
                       (Inr \<lparr>success = True, fromVersion = control_version control,
                             toVersion = v, migrationsRun = run, error = None\<rparr>, w2)
                   | ((Some e, run), w2) \<Rightarrow>
                      (case unlock E w2 of
                         (Inl e', w3) \<Rightarrow> (Inl e', w3)
                       | (Inr _, w3) \<Rightarrow>
                           (Inr \<lparr>success = False, fromVersion = control_version control,
                                 toVersion = v, migrationsRun = run,
                                 error = Some (as_Error e)\<rparr>, w3)))))))"

definition migrateTo :: "Migrations \<Rightarrow> command \<Rightarrow> world \<Rightarrow> outcome \<times> world" where
  "migrateTo E cmd w =
     (if \<not> dbConnection E then (Thrown DatabaseNotSetCallFirst, w)
      else if cmd = CmdString [] \<or> length (migrations E) = 0 then
        (Thrown (InvalidCommand cmd), w)
      else
       (let parsedCommand = parseCommand cmd;
            targetVersion =
              (case command_version parsedCommand of
                 Latest \<Rightarrow>
                   (case element_at (migrations E) (int (length (migrations E)) - 1) of
                      Some m \<Rightarrow> version m
                    | None \<Rightarrow> Num 0)
               | Version n \<Rightarrow> n)
        in (case priv_migrateTo E targetVersion
                   (subcommand parsedCommand = Some ''rerun'') w of
              (Inl e, w1) \<Rightarrow> (Thrown e, w1)
            | (Inr result, w1) \<Rightarrow>
                if subcommand parsedCommand = Some ''exit'' then (ProcessExit 0, w1)
                else (Returned result, w1))))"

section \<open>Vocabulary of the statements\<close>

text \<open>
  The order of the numbers, to state that a list of versions is sorted: on the numbers
  other than \<open>NaN\<close> it is the order of JavaScript (\<open>number_less_iff\<close> below), and
  \<open>NaN\<close> is placed below them all to make it linear.
\<close>

instantiation number :: linorder
begin

definition less_eq_number :: "number \<Rightarrow> number \<Rightarrow> bool" where
  "less_eq_number a b = (a = NaN \<or> (b \<noteq> NaN \<and> \<not> number_less b a))"

definition less_number :: "number \<Rightarrow> number \<Rightarrow> bool" where
  "less_number a b = (b \<noteq> NaN \<and> (a = NaN \<or> number_less a b))"

instance
proof
  fix x y z :: number
  show "(x < y) = (x \<le> y \<and> \<not> y \<le> x)"
    by (cases x; cases y) (auto simp: less_eq_number_def less_number_def)
  show "x \<le> x"
    by (cases x) (auto simp: less_eq_number_def)
  show "x \<le> y \<Longrightarrow> y \<le> z \<Longrightarrow> x \<le> z"
    by (cases x; cases y; cases z) (auto simp: less_eq_number_def)
  show "x \<le> y \<Longrightarrow> y \<le> x \<Longrightarrow> x = y"
    by (cases x; cases y) (auto simp: less_eq_number_def)
  show "x \<le> y \<or> y \<le> x"
    by (cases x; cases y) (auto simp: less_eq_number_def)
qed

end

text \<open>
  The stored form of an accepted argument of \<open>add\<close>, and the registries of the walks:
  sorted by version, versions greater than \<open>0\<close> (so none is \<open>NaN\<close>) and every \<open>up\<close>
  a function. \<open>add\<close> maintains this as long as no version is \<open>NaN\<close>.
\<close>

definition stored :: "MigrationArg \<Rightarrow> Migration" where
  "stored a = \<lparr>version = the (arg_version a), name = arg_name a, up = arg_up a,
               down = arg_down a\<rparr>"

definition registry_ok :: "Migrations \<Rightarrow> bool" where
  "registry_ok E =
     (sorted (map version (migrations E)) \<and>
      list_all (\<lambda>m. number_less (Num 0) (version m) \<and> up m \<noteq> None) (migrations E))"

text \<open>
  The version persisted after reverting the migration at index \<open>j\<close>, the events of one
  step of the forward and of the backward walk, and the update of the persisted version.
\<close>

definition version_before :: "Migrations \<Rightarrow> int \<Rightarrow> number" where
  "version_before E j =
     (case element_at (migrations E) (j - 1) of Some p \<Rightarrow> version p | None \<Rightarrow> Num 0)"

definition up_events :: "Migrations \<Rightarrow> int \<Rightarrow> event list" where
  "up_events E j =
     [EvRun Up (migrations E ! nat j), EvUpdateVersion (version (migrations E ! nat j))]"

definition down_events :: "Migrations \<Rightarrow> int \<Rightarrow> event list" where
  "down_events E j =
     [EvRun Down (migrations E ! nat j), EvUpdateVersion (version_before E j)]"

definition set_version :: "number \<Rightarrow> ControlDocument option \<Rightarrow> ControlDocument option" where
  "set_version v c = map_option (\<lambda>d. d\<lparr>control_version := v\<rparr>) c"

text \<open>
  The control document as \<open>_getControl\<close> returns it (created with version \<open>0\<close>,
  unlocked, when absent), the version \<open>getVersion\<close> would report, the driver calls of that
  read, and the world after the read, after a lock that was acquired and after an unlock.
\<close>

definition control_of :: "world \<Rightarrow> ControlDocument" where
  "control_of w =
     (case collection w of
        None \<Rightarrow> \<lparr>control_version = Num 0, locked = False, lockedAt = None\<rparr>
      | Some c \<Rightarrow> c)"

definition persisted_version :: "world \<Rightarrow> number" where
  "persisted_version w = control_version (control_of w)"

definition read_events :: "world \<Rightarrow> event list" where
  "read_events w = (if collection w = None then [EvFindOne, EvSetControl] else [EvFindOne])"

definition after_read :: "world \<Rightarrow> world" where
  "after_read w = w\<lparr>trace := trace w @ read_events w, collection := Some (control_of w)\<rparr>"

definition after_lock :: "world \<Rightarrow> world" where
  "after_lock w =
     w\<lparr>trace := trace w @ read_events w @ [EvLock],
       collection := Some ((control_of w)\<lparr>locked := True, lockedAt := Some (now w)\<rparr>)\<rparr>"

definition after_unlock :: "world \<Rightarrow> world" where
  "after_unlock w =
     w\<lparr>trace := trace w @ [EvUnlock],
       collection := map_option (\<lambda>d. d\<lparr>locked := False\<rparr>) (collection w)\<rparr>"

text \<open>
  How the step on one migration fails, if it does: the exception and the events of the
  failing step (a missing action is refused before anything is invoked).
\<close>

definition step_failure :: "direction \<Rightarrow> Migration \<Rightarrow> (exn \<times> event list) option" where
  "step_failure dir m =
     (case (case dir of Up \<Rightarrow> up m | Down \<Rightarrow> down m) of
        None \<Rightarrow> Some (CannotMigrate dir (version m), [])
      | Some Resolves \<Rightarrow> None
      | Some (Throws x) \<Rightarrow> Some (x, [EvRun dir m]))"

text \<open>
  The world after a run that acquired the lock, applied steps with the events \<open>evs\<close>,
  left the version \<open>pv\<close> persisted, and released the lock.
\<close>

definition finished :: "world \<Rightarrow> event list \<Rightarrow> number \<Rightarrow> world" where
  "finished w evs pv =
     w\<lparr>trace := trace w @ read_events w @ [EvLock] @ evs @ [EvUnlock],
       collection :=
         Some ((control_of w)\<lparr>control_version := pv, locked := False,
                               lockedAt := Some (now w)\<rparr>)\<rparr>"

text \<open>
  The registered migrations with a version greater than \<open>lo\<close> and at most \<open>hi\<close>, the
  events of one forward step on a migration, and the migrations whose action of a
  direction a trace invokes, in the order of the invocations.
\<close>

definition between :: "number \<Rightarrow> number \<Rightarrow> Migration list \<Rightarrow> Migration list" where
  "between lo hi ms =
     filter (\<lambda>m. number_less lo (version m) \<and> number_le (version m) hi) ms"

definition up_step :: "Migration \<Rightarrow> event list" where
  "up_step m = [EvRun Up m, EvUpdateVersion (version m)]"

fun invoked :: "direction \<Rightarrow> event list \<Rightarrow> Migration list" where
  "invoked d [] = []"
| "invoked d (EvRun d' m # evs) = (if d' = d then m # invoked d evs else invoked d evs)"
| "invoked d (ev # evs) = invoked d evs"

text \<open>
  The target version that \<open>migrateTo\<close> computes from its command and hands to
  \<open>_migrateTo\<close>.
\<close>

definition resolved_target :: "Migrations \<Rightarrow> command \<Rightarrow> number" where
  "resolved_target E cmd =
     (case command_version (parseCommand cmd) of
        Latest \<Rightarrow>
          (case element_at (migrations E) (int (length (migrations E)) - 1) of
             Some m \<Rightarrow> version m
           | None \<Rightarrow> Num 0)
      | Version n \<Rightarrow> n)"

text \<open>
  Concrete migrations, instances, control documents and worlds (empty trace, clock at
  \<open>0\<close>) for the examples.
\<close>

definition migration_of :: "rat \<Rightarrow> action \<Rightarrow> action option \<Rightarrow> Migration" where
  "migration_of v u d = \<lparr>version = Num v, name = None, up = Some u, down = d\<rparr>"

definition engine_of :: "Migration list \<Rightarrow> Migrations" where
  "engine_of ms = \<lparr>migrations = ms, dbConnection = True\<rparr>"

definition world_of :: "ControlDocument option \<Rightarrow> string option list \<Rightarrow> world" where
  "world_of c fs = \<lparr>collection = c, faults = fs, trace = [], now = 0\<rparr>"

definition control_doc :: "rat \<Rightarrow> bool \<Rightarrow> ControlDocument" where
  "control_doc v l = \<lparr>control_version = Num v, locked = l, lockedAt = None\<rparr>"

section \<open>The driver without rejections\<close>

declare up_loop.simps [simp del] down_loop.simps [simp del] bit_length.simps [simp del]

lemma db_call_ok:
  "faults w = [] \<Longrightarrow>
   db_call ev f w =
     (Inr (fst (f (collection w))),
      w\<lparr>trace := trace w @ [ev], collection := snd (f (collection w))\<rparr>)"
  by (simp add: db_call_def split: prod.splits)

lemma updateVersion_ok:
  "dbConnection E \<Longrightarrow> faults w = [] \<Longrightarrow>
   updateVersion E v w =
     (Inr (), w\<lparr>trace := trace w @ [EvUpdateVersion v],
                collection := set_version v (collection w)\<rparr>)"
  by (simp add: updateVersion_def db_call_ok set_version_def)

lemma unlock_ok:
  "dbConnection E \<Longrightarrow> faults w = [] \<Longrightarrow>
   unlock E w =
     (Inr (), w\<lparr>trace := trace w @ [EvUnlock],
                collection := map_option (\<lambda>d. d\<lparr>locked := False\<rparr>) (collection w)\<rparr>)"
  by (simp add: unlock_def db_call_ok)

lemma runMigration_resolves:
  "element_at (migrations E) i = Some m \<Longrightarrow>
   (case dir of Up \<Rightarrow> up m | Down \<Rightarrow> down m) = Some Resolves \<Longrightarrow>
   runMigration E dir i w = (Inr (), w\<lparr>trace := trace w @ [EvRun dir m]\<rparr>)"
  by (simp add: runMigration_def)

lemma set_version_twice [simp]: "set_version v (set_version u c) = set_version v c"
  by (cases c) (simp_all add: set_version_def)

lemma up_loop_step:
  assumes "dbConnection E" "faults w = []" "0 \<le> i" "i \<le> e" "i < int (length (migrations E))"
    "up (migrations E ! nat i) = Some Resolves"
  shows "up_loop E i e n w =
     up_loop E (i + 1) e (n + 1)
       (w\<lparr>trace := trace w @ up_events E i,
          collection := set_version (version (migrations E ! nat i)) (collection w)\<rparr>)"
proof -
  let ?m = "migrations E ! nat i"
  have el: "element_at (migrations E) i = Some ?m"
    using assms by (simp add: element_at_def)
  let ?w1 = "w\<lparr>trace := trace w @ [EvRun Up ?m]\<rparr>"
  have r: "runMigration E Up i w = (Inr (), ?w1)"
    using el assms by (simp add: runMigration_resolves)
  have u: "updateVersion E (version ?m) ?w1 =
     (Inr (), w\<lparr>trace := trace w @ up_events E i,
          collection := set_version (version ?m) (collection w)\<rparr>)"
    using assms by (simp add: updateVersion_ok up_events_def)
  show ?thesis
    using assms(4) r u el by (subst up_loop.simps) simp
qed

lemma up_loop_prefix:
  assumes "dbConnection E"
  shows "faults w = [] \<Longrightarrow> 0 \<le> i \<Longrightarrow> i \<le> k \<Longrightarrow> k \<le> e + 1 \<Longrightarrow>
    k \<le> int (length (migrations E)) \<Longrightarrow>
    (\<forall>j. i \<le> j \<and> j < k \<longrightarrow> up (migrations E ! nat j) = Some Resolves) \<Longrightarrow>
    up_loop E i e n w =
      up_loop E k e (n + nat (k - i))
       (w\<lparr>trace := trace w @ concat (map (up_events E) [i..k - 1]),
          collection := (if i < k then set_version (version (migrations E ! nat (k - 1))) (collection w)
                         else collection w)\<rparr>)"
proof (induction "nat (k - i)" arbitrary: i n w)
  case 0
  then have "i = k" by simp
  then show ?case by simp
next
  case (Suc d)
  then have lt: "i < k" by simp
  let ?w2 = "w\<lparr>trace := trace w @ up_events E i,
          collection := set_version (version (migrations E ! nat i)) (collection w)\<rparr>"
  have step: "up_loop E i e n w = up_loop E (i + 1) e (n + 1) ?w2"
    using assms Suc.prems lt by (intro up_loop_step) auto
  have IH: "up_loop E (i + 1) e (n + 1) ?w2 =
      up_loop E k e ((n + 1) + nat (k - (i + 1)))
       (?w2\<lparr>trace := trace ?w2 @ concat (map (up_events E) [i + 1..k - 1]),
          collection := (if i + 1 < k then set_version (version (migrations E ! nat (k - 1))) (collection ?w2)
                         else collection ?w2)\<rparr>)"
    using Suc.hyps(2) Suc.prems lt by (intro Suc.hyps(1)) auto
  have up: "[i..k - 1] = i # [i + 1..k - 1]" using lt by (simp add: upto_rec1)
  have cnt: "(n + 1) + nat (k - (i + 1)) = n + nat (k - i)" using lt by simp
  show ?case
  proof (cases "i + 1 < k")
    case True
    then show ?thesis unfolding step IH up cnt using lt by simp
  next
    case False
    then have ki: "k = i + 1" using lt by simp
    show ?thesis unfolding step IH up cnt by (simp add: ki)
  qed
qed

lemma down_loop_step:
  assumes "dbConnection E" "faults w = []" "0 \<le> i" "t < i" "i < int (length (migrations E))"
    "down (migrations E ! nat i) = Some Resolves"
  shows "down_loop E i t n w =
     down_loop E (i - 1) t (n + 1)
       (w\<lparr>trace := trace w @ down_events E i,
          collection := set_version (version_before E i) (collection w)\<rparr>)"
proof -
  let ?m = "migrations E ! nat i"
  have el: "element_at (migrations E) i = Some ?m"
    using assms by (simp add: element_at_def)
  let ?w1 = "w\<lparr>trace := trace w @ [EvRun Down ?m]\<rparr>"
  have r: "runMigration E Down i w = (Inr (), ?w1)"
    using el assms by (simp add: runMigration_resolves)
  have u: "updateVersion E (version_before E i) ?w1 =
     (Inr (), w\<lparr>trace := trace w @ down_events E i,
          collection := set_version (version_before E i) (collection w)\<rparr>)"
    using assms by (simp add: updateVersion_ok down_events_def)
  show ?thesis
    using assms(4) r u by (subst down_loop.simps) (simp add: version_before_def)
qed

lemma down_loop_prefix:
  assumes "dbConnection E"
  shows "faults w = [] \<Longrightarrow> - 1 \<le> k \<Longrightarrow> k \<le> i \<Longrightarrow> t \<le> k \<Longrightarrow>
    i < int (length (migrations E)) \<Longrightarrow>
    (\<forall>j. k < j \<and> j \<le> i \<longrightarrow> down (migrations E ! nat j) = Some Resolves) \<Longrightarrow>
    down_loop E i t n w =
      down_loop E k t (n + nat (i - k))
       (w\<lparr>trace := trace w @ concat (map (down_events E) (rev [k + 1..i])),
          collection := (if k < i then set_version (version_before E (k + 1)) (collection w)
                         else collection w)\<rparr>)"
proof (induction "nat (i - k)" arbitrary: i n w)
  case 0
  then have "i = k" by simp
  then show ?case by simp
next
  case (Suc d)
  then have lt: "k < i" by simp
  let ?w2 = "w\<lparr>trace := trace w @ down_events E i,
          collection := set_version (version_before E i) (collection w)\<rparr>"
  have step: "down_loop E i t n w = down_loop E (i - 1) t (n + 1) ?w2"
    using assms Suc.prems lt by (intro down_loop_step) auto
  have IH: "down_loop E (i - 1) t (n + 1) ?w2 =
      down_loop E k t ((n + 1) + nat ((i - 1) - k))
       (?w2\<lparr>trace := trace ?w2 @ concat (map (down_events E) (rev [k + 1..i - 1])),
          collection := (if k < i - 1 then set_version (version_before E (k + 1)) (collection ?w2)
                         else collection ?w2)\<rparr>)"
    using Suc.hyps(2) Suc.prems lt by (intro Suc.hyps(1)) auto
  have up: "[k + 1..i] = [k + 1..i - 1] @ [i]" using lt by (simp add: upto_rec2)
  have cnt: "(n + 1) + nat ((i - 1) - k) = n + nat (i - k)" using lt by simp
  show ?case
  proof (cases "k < i - 1")
    case True
    then show ?thesis unfolding step IH up cnt using lt by simp
  next
    case False
    then have ki: "i = k + 1" using lt by simp
    show ?thesis unfolding step IH up cnt by (simp add: ki)
  qed
qed

lemma getControl_ok:
  "dbConnection E \<Longrightarrow> faults w = [] \<Longrightarrow>
   priv_getControl E w = (Inr (control_of w), after_read w)"
  by (cases "collection w")
     (simp_all add: priv_getControl_def priv_setControl_def db_call_ok control_of_def Let_def
        after_read_def read_events_def)

lemma after_read_simps [simp]:
  "faults (after_read w) = faults w" "now (after_read w) = now w"
  "collection (after_read w) = Some (control_of w)"
  "trace (after_read w) = trace w @ read_events w"
  by (simp_all add: after_read_def)

lemma lock_free:
  "dbConnection E \<Longrightarrow> faults w = [] \<Longrightarrow> \<not> locked (control_of w) \<Longrightarrow>
   lock E (after_read w) = (Inr True, after_lock w)"
  by (simp add: lock_def db_call_ok after_lock_def after_read_def)

lemma lock_held:
  "dbConnection E \<Longrightarrow> faults w = [] \<Longrightarrow> locked (control_of w) \<Longrightarrow>
   lock E (after_read w) =
     (Inr False, (after_read w)\<lparr>trace := trace w @ read_events w @ [EvLock]\<rparr>)"
  by (simp add: lock_def db_call_ok after_read_def)

lemma after_lock_simps [simp]:
  "faults (after_lock w) = faults w" "now (after_lock w) = now w"
  "collection (after_lock w) =
     Some ((control_of w)\<lparr>locked := True, lockedAt := Some (now w)\<rparr>)"
  "trace (after_lock w) = trace w @ read_events w @ [EvLock]"
  by (simp_all add: after_lock_def)

lemma unlock_after:
  "dbConnection E \<Longrightarrow> faults w = [] \<Longrightarrow> unlock E w = (Inr (), after_unlock w)"
  by (simp add: unlock_ok after_unlock_def)

lemma after_unlock_simps [simp]:
  "faults (after_unlock w) = faults w" "now (after_unlock w) = now w"
  "collection (after_unlock w) = map_option (\<lambda>d. d\<lparr>locked := False\<rparr>) (collection w)"
  "trace (after_unlock w) = trace w @ [EvUnlock]"
  by (simp_all add: after_unlock_def)

lemma priv_migrateTo_fast:
  assumes "dbConnection E" "faults w = []" "strict_equal (persisted_version w) v"
  shows "priv_migrateTo E v False w =
     (Inr \<lparr>success = True, fromVersion = persisted_version w, toVersion = v,
           migrationsRun = 0, error = None\<rparr>, after_read w)"
  using assms by (simp add: priv_migrateTo_def getControl_ok persisted_version_def)

lemma priv_migrateTo_locked:
  assumes "dbConnection E" "faults w = []" "locked (control_of w)"
    "rerun \<or> \<not> strict_equal (persisted_version w) v"
  shows "priv_migrateTo E v rerun w =
     (Inr \<lparr>success = False, fromVersion = persisted_version w, toVersion = v,
           migrationsRun = 0, error = Some ControlLocked\<rparr>,
      (after_read w)\<lparr>trace := trace w @ read_events w @ [EvLock]\<rparr>)"
  using assms
  by (auto simp add: priv_migrateTo_def getControl_ok persisted_version_def lock_held Let_def)

lemma priv_migrateTo_run:
  assumes "dbConnection E" "faults w = []" "\<not> locked (control_of w)"
    "rerun \<or> \<not> strict_equal (persisted_version w) v"
    "apply_phase E (persisted_version w) v rerun (after_lock w) = ((x, n), w2)"
    "faults w2 = []"
  shows "priv_migrateTo E v rerun w =
     (Inr \<lparr>success = (x = None), fromVersion = persisted_version w, toVersion = v,
           migrationsRun = n, error = map_option as_Error x\<rparr>, after_unlock w2)"
proof (cases x)
  case None
  then show ?thesis using assms
    by (auto simp add: priv_migrateTo_def getControl_ok persisted_version_def lock_free Let_def
      try_block_def unlock_after)
next
  case (Some e)
  then show ?thesis using assms
    by (auto simp add: priv_migrateTo_def getControl_ok persisted_version_def lock_free Let_def
      try_block_def unlock_after)
qed

section \<open>Registry lookup and the two walks\<close>

lemma findIndex_bounds: "- 1 \<le> findIndex P xs \<and> findIndex P xs < int (length xs)"
  by (induction xs) (auto simp: Let_def)

lemma findIndex_hit: "findIndex P xs \<noteq> - 1 \<Longrightarrow> P (xs ! nat (findIndex P xs))"
proof (induction xs)
  case Nil
  then show ?case by simp
next
  case (Cons x xs)
  show ?case
  proof (cases "P x")
    case True
    then show ?thesis by simp
  next
    case False
    with Cons.prems have ne: "findIndex P xs \<noteq> - 1" by (auto simp: Let_def)
    moreover have "0 \<le> findIndex P xs" using findIndex_bounds [of P xs] ne by linarith
    ultimately show ?thesis using False Cons.IH by (simp add: Let_def nat_add_distrib)
  qed
qed

lemma findIndex_first: "0 \<le> j \<Longrightarrow> j < findIndex P xs \<Longrightarrow> \<not> P (xs ! nat j)"
proof (induction xs arbitrary: j)
  case Nil
  then show ?case by simp
next
  case (Cons x xs)
  show ?case
  proof (cases "P x")
    case True
    with Cons.prems show ?thesis by simp
  next
    case False
    show ?thesis
    proof (cases "j = 0")
      case True
      then show ?thesis using False by simp
    next
      case jpos: False
      with Cons.prems have "0 \<le> j - 1" by simp
      moreover have "j - 1 < findIndex P xs"
        using Cons.prems False by (auto simp: Let_def split: if_splits)
      ultimately have "\<not> P (xs ! nat (j - 1))" by (rule Cons.IH)
      moreover have "nat j = Suc (nat (j - 1))" using Cons.prems jpos by simp
      ultimately show ?thesis by simp
    qed
  qed
qed

lemma findIndex_miss: "(findIndex P xs = - 1) = (\<forall>x\<in>set xs. \<not> P x)"
proof (induction xs)
  case Nil
  then show ?case by simp
next
  case (Cons x xs)
  have "0 \<le> findIndex P xs \<or> findIndex P xs = - 1"
    using findIndex_bounds [of P xs] by linarith
  then show ?case using Cons by (auto simp: Let_def)
qed

lemma number_less_iff: "a \<noteq> NaN \<Longrightarrow> b \<noteq> NaN \<Longrightarrow> number_less a b = (a < b)"
  by (simp add: less_number_def)

lemma number_le_iff: "a \<noteq> NaN \<Longrightarrow> b \<noteq> NaN \<Longrightarrow> number_le a b = (a \<le> b)"
  by (cases a; cases b) (auto simp: number_le_def strict_equal_def less_eq_number_def)

lemma number_less_not_NaN: "number_less a b \<Longrightarrow> a \<noteq> NaN \<and> b \<noteq> NaN"
  by (cases a; cases b) auto

lemma findIndexByVersion_zero: "findIndexByVersion E (Num 0) = Inr (- 1)"
  by (simp add: findIndexByVersion_def strict_equal_def)

lemma findIndexByVersion_Inr:
  assumes "findIndexByVersion E v = Inr i"
  shows "- 1 \<le> i" "i < int (length (migrations E))"
    "i = - 1 \<Longrightarrow> v = Num 0" "0 \<le> i \<Longrightarrow> version (migrations E ! nat i) = v"
    "0 \<le> i \<Longrightarrow> v \<noteq> Num 0"
    "0 \<le> j \<Longrightarrow> j < i \<Longrightarrow> version (migrations E ! nat j) \<noteq> v"
    "v \<noteq> NaN"
proof -
  let ?P = "\<lambda>m. strict_equal (version m) v"
  have b: "- 1 \<le> findIndex ?P (migrations E) \<and>
      findIndex ?P (migrations E) < int (length (migrations E))"
    by (rule findIndex_bounds)
  show "- 1 \<le> i" "i < int (length (migrations E))"
    using assms b by (auto simp: findIndexByVersion_def Let_def split: if_splits)
  show "i = - 1 \<Longrightarrow> v = Num 0"
    using assms by (auto simp: findIndexByVersion_def strict_equal_def Let_def split: if_splits)
  show "0 \<le> i \<Longrightarrow> v \<noteq> Num 0"
    using assms by (auto simp: findIndexByVersion_def strict_equal_def Let_def split: if_splits)
  show hit: "0 \<le> i \<Longrightarrow> version (migrations E ! nat i) = v"
    using assms findIndex_hit [of ?P "migrations E"]
    by (auto simp: findIndexByVersion_def strict_equal_def Let_def split: if_splits)
  show nn: "v \<noteq> NaN"
    using assms findIndex_hit [of ?P "migrations E"]
    by (auto simp: findIndexByVersion_def strict_equal_def Let_def split: if_splits)
  show "0 \<le> j \<Longrightarrow> j < i \<Longrightarrow> version (migrations E ! nat j) \<noteq> v"
    using assms nn findIndex_first [of j ?P "migrations E"]
    by (auto simp: findIndexByVersion_def strict_equal_def Let_def split: if_splits)
qed

lemma findIndexByVersion_missing:
  "n \<noteq> Num 0 \<Longrightarrow> n = NaN \<or> (\<forall>m\<in>set (migrations E). version m \<noteq> n) \<Longrightarrow>
   findIndexByVersion E n = Inl (CantFindVersion n)"
  using findIndex_miss [of "\<lambda>m. strict_equal (version m) n" "migrations E"]
  by (auto simp add: findIndexByVersion_def strict_equal_def Let_def)

lemma findIndexByVersion_present:
  "n \<noteq> Num 0 \<Longrightarrow> n \<noteq> NaN \<Longrightarrow> \<exists>m\<in>set (migrations E). version m = n \<Longrightarrow>
   findIndexByVersion E n =
     Inr (findIndex (\<lambda>m. strict_equal (version m) n) (migrations E))"
  using findIndex_miss [of "\<lambda>m. strict_equal (version m) n" "migrations E"]
  by (auto simp add: findIndexByVersion_def strict_equal_def Let_def)

lemma runMigration_step:
  "element_at (migrations E) i = Some m \<Longrightarrow>
   runMigration E dir i w =
     (case step_failure dir m of
        None \<Rightarrow> (Inr (), w\<lparr>trace := trace w @ [EvRun dir m]\<rparr>)
      | Some (x, evs) \<Rightarrow> (Inl x, w\<lparr>trace := trace w @ evs\<rparr>))"
  by (auto simp: runMigration_def step_failure_def split: option.splits action.splits)

lemma up_loop_done: "e < k \<Longrightarrow> up_loop E k e n w = ((None, n), w)"
  by (subst up_loop.simps) simp

lemma down_loop_done: "k \<le> t \<Longrightarrow> down_loop E k t n w = ((None, n), w)"
  by (subst down_loop.simps) simp

lemma up_loop_throw:
  "k \<le> e \<Longrightarrow> 0 \<le> k \<Longrightarrow> k < int (length (migrations E)) \<Longrightarrow>
   step_failure Up (migrations E ! nat k) = Some (x, evs) \<Longrightarrow>
   up_loop E k e n w = ((Some x, n), w\<lparr>trace := trace w @ evs\<rparr>)"
  by (subst up_loop.simps) (simp add: runMigration_step element_at_def)

lemma down_loop_throw:
  "t < k \<Longrightarrow> 0 \<le> k \<Longrightarrow> k < int (length (migrations E)) \<Longrightarrow>
   step_failure Down (migrations E ! nat k) = Some (x, evs) \<Longrightarrow>
   down_loop E k t n w = ((Some x, n), w\<lparr>trace := trace w @ evs\<rparr>)"
  by (subst down_loop.simps) (simp add: runMigration_step element_at_def)

lemma apply_phase_forward:
  assumes "dbConnection E" "faults w = []"
    "findIndexByVersion E cur = Inr s" "findIndexByVersion E v = Inr e"
    "number_less cur v" "s < k" "k \<le> e + 1"
    "\<forall>j. s < j \<and> j < k \<longrightarrow> up (migrations E ! nat j) = Some Resolves"
  shows "apply_phase E cur v False w =
     up_loop E k e (nat (k - s - 1))
       (w\<lparr>trace := trace w @ concat (map (up_events E) [s + 1..k - 1]),
          collection := (if s + 1 < k
                         then set_version (version (migrations E ! nat (k - 1))) (collection w)
                         else collection w)\<rparr>)"
proof -
  have s: "- 1 \<le> s" using assms(3) by (rule findIndexByVersion_Inr)
  have e: "e < int (length (migrations E))" using assms(4) by (rule findIndexByVersion_Inr)
  have "apply_phase E cur v False w = up_loop E (s + 1) e 0 w"
    using assms by (simp add: apply_phase_def)
  also have "\<dots> = up_loop E k e (0 + nat (k - (s + 1)))
       (w\<lparr>trace := trace w @ concat (map (up_events E) [s + 1..k - 1]),
          collection := (if s + 1 < k
                         then set_version (version (migrations E ! nat (k - 1))) (collection w)
                         else collection w)\<rparr>)"
    using assms s e by (intro up_loop_prefix) auto
  finally show ?thesis by (simp add: algebra_simps)
qed

lemma apply_phase_backward:
  assumes "dbConnection E" "faults w = []"
    "findIndexByVersion E cur = Inr s" "findIndexByVersion E v = Inr t"
    "\<not> number_less cur v" "t \<le> k" "k \<le> s"
    "\<forall>j. k < j \<and> j \<le> s \<longrightarrow> down (migrations E ! nat j) = Some Resolves"
  shows "apply_phase E cur v False w =
     down_loop E k t (nat (s - k))
       (w\<lparr>trace := trace w @ concat (map (down_events E) (rev [k + 1..s])),
          collection := (if k < s then set_version (version_before E (k + 1)) (collection w)
                         else collection w)\<rparr>)"
proof -
  have t: "- 1 \<le> t" using assms(4) by (rule findIndexByVersion_Inr)
  have s: "s < int (length (migrations E))" using assms(3) by (rule findIndexByVersion_Inr)
  have "apply_phase E cur v False w = down_loop E s t 0 w"
    using assms by (simp add: apply_phase_def)
  also have "\<dots> = down_loop E k t (0 + nat (s - k))
       (w\<lparr>trace := trace w @ concat (map (down_events E) (rev [k + 1..s])),
          collection := (if k < s then set_version (version_before E (k + 1)) (collection w)
                         else collection w)\<rparr>)"
    using assms s t by (intro down_loop_prefix) auto
  finally show ?thesis by simp
qed

section \<open>Runs that acquire the lock\<close>

lemma number_less_asym: "number_less a b \<Longrightarrow> \<not> number_less b a"
  by (cases a; cases b) auto

lemma number_less_not_equal:
  "number_less a b \<Longrightarrow> \<not> strict_equal a b" "number_less a b \<Longrightarrow> \<not> strict_equal b a"
  by (cases a; cases b; auto simp: strict_equal_def)+

lemma run_forward_ok:
  assumes "dbConnection E" "faults w = []" "\<not> locked (control_of w)"
    "findIndexByVersion E (persisted_version w) = Inr s"
    "findIndexByVersion E v = Inr e"
    "number_less (persisted_version w) v"
    "\<forall>j. s < j \<and> j \<le> e \<longrightarrow> up (migrations E ! nat j) = Some Resolves"
  shows "priv_migrateTo E v False w =
     (Inr \<lparr>success = True, fromVersion = persisted_version w, toVersion = v,
           migrationsRun = nat (e - s), error = None\<rparr>,
      finished w (concat (map (up_events E) [s + 1..e]))
        (if s < e then v else persisted_version w))"
proof (cases "s < e")
  case True
  then have e0: "0 \<le> e" using findIndexByVersion_Inr(1) [OF assms(4)] by simp
  have ve: "version (migrations E ! nat e) = v"
    using findIndexByVersion_Inr(4) [OF assms(5) e0] .
  let ?w2 = "(after_lock w)\<lparr>trace := trace (after_lock w) @ concat (map (up_events E) [s + 1..e]),
       collection := set_version v (collection (after_lock w))\<rparr>"
  have "apply_phase E (persisted_version w) v False (after_lock w) =
      up_loop E (e + 1) e (nat (e + 1 - s - 1)) ?w2"
    using apply_phase_forward [of E "after_lock w" "persisted_version w" s v e "e + 1"]
      assms True ve by simp
  then have ap: "apply_phase E (persisted_version w) v False (after_lock w) =
      ((None, nat (e - s)), ?w2)"
    by (simp add: up_loop_done)
  have "priv_migrateTo E v False w =
     (Inr \<lparr>success = (None = (None :: exn option)), fromVersion = persisted_version w,
           toVersion = v, migrationsRun = nat (e - s),
           error = map_option as_Error None\<rparr>, after_unlock ?w2)"
    using assms ap number_less_not_equal [OF assms(6)] by (intro priv_migrateTo_run) auto
  moreover have "after_unlock ?w2 = finished w (concat (map (up_events E) [s + 1..e])) v"
    by (simp add: after_unlock_def after_lock_def finished_def set_version_def persisted_version_def)
  ultimately show ?thesis using True by simp
next
  case False
  have ap: "apply_phase E (persisted_version w) v False (after_lock w) =
      ((None, 0), after_lock w)"
    using assms False by (simp add: apply_phase_def up_loop_done)
  have "priv_migrateTo E v False w =
     (Inr \<lparr>success = (None = (None :: exn option)), fromVersion = persisted_version w,
           toVersion = v, migrationsRun = 0,
           error = map_option as_Error None\<rparr>, after_unlock (after_lock w))"
    using assms ap number_less_not_equal [OF assms(6)] by (intro priv_migrateTo_run) auto
  moreover have "after_unlock (after_lock w) = finished w [] (persisted_version w)"
    by (simp add: after_unlock_def after_lock_def finished_def set_version_def persisted_version_def)
  ultimately show ?thesis using False by simp
qed

lemma run_forward_fail:
  assumes "dbConnection E" "faults w = []" "\<not> locked (control_of w)"
    "findIndexByVersion E (persisted_version w) = Inr s"
    "findIndexByVersion E v = Inr e"
    "number_less (persisted_version w) v" "s < k" "k \<le> e"
    "\<forall>j. s < j \<and> j < k \<longrightarrow> up (migrations E ! nat j) = Some Resolves"
    "step_failure Up (migrations E ! nat k) = Some (x, evs)"
  shows "priv_migrateTo E v False w =
     (Inr \<lparr>success = False, fromVersion = persisted_version w, toVersion = v,
           migrationsRun = nat (k - s - 1), error = Some (as_Error x)\<rparr>,
      finished w (concat (map (up_events E) [s + 1..k - 1]) @ evs)
        (if s + 1 < k then version (migrations E ! nat (k - 1)) else persisted_version w))"
proof -
  have k0: "0 \<le> k" using findIndexByVersion_Inr(1) [OF assms(4)] assms(7) by simp
  have kl: "k < int (length (migrations E))"
    using findIndexByVersion_Inr(2) [OF assms(5)] assms(8) by simp
  let ?w1 = "(after_lock w)\<lparr>trace := trace (after_lock w) @ concat (map (up_events E) [s + 1..k - 1]),
       collection := (if s + 1 < k
                      then set_version (version (migrations E ! nat (k - 1))) (collection (after_lock w))
                      else collection (after_lock w))\<rparr>"
  have "apply_phase E (persisted_version w) v False (after_lock w) =
      up_loop E k e (nat (k - s - 1)) ?w1"
    using apply_phase_forward [of E "after_lock w" "persisted_version w" s v e k] assms by simp
  also have "\<dots> = ((Some x, nat (k - s - 1)), ?w1\<lparr>trace := trace ?w1 @ evs\<rparr>)"
    using assms k0 kl by (intro up_loop_throw) auto
  finally have ap: "apply_phase E (persisted_version w) v False (after_lock w) =
      ((Some x, nat (k - s - 1)), ?w1\<lparr>trace := trace ?w1 @ evs\<rparr>)" .
  have "priv_migrateTo E v False w =
     (Inr \<lparr>success = (Some x = None), fromVersion = persisted_version w,
           toVersion = v, migrationsRun = nat (k - s - 1),
           error = map_option as_Error (Some x)\<rparr>, after_unlock (?w1\<lparr>trace := trace ?w1 @ evs\<rparr>))"
    using assms(1-3,6) ap number_less_not_equal [OF assms(6)] by (intro priv_migrateTo_run) auto
  moreover have "after_unlock (?w1\<lparr>trace := trace ?w1 @ evs\<rparr>) =
      finished w (concat (map (up_events E) [s + 1..k - 1]) @ evs)
        (if s + 1 < k then version (migrations E ! nat (k - 1)) else persisted_version w)"
    by (simp add: after_unlock_def after_lock_def finished_def set_version_def persisted_version_def)
  ultimately show ?thesis by simp
qed

lemma version_before_target:
  assumes "findIndexByVersion E v = Inr t"
  shows "version_before E (t + 1) = v"
proof (cases "t = - 1")
  case True
  then show ?thesis using findIndexByVersion_Inr(3) [OF assms]
    by (simp add: version_before_def element_at_def)
next
  case False
  then have t0: "0 \<le> t" using findIndexByVersion_Inr(1) [OF assms] by simp
  then show ?thesis
    using findIndexByVersion_Inr(4) [OF assms t0] findIndexByVersion_Inr(2) [OF assms]
    by (simp add: version_before_def element_at_def)
qed

lemma run_backward_ok:
  assumes "dbConnection E" "faults w = []" "\<not> locked (control_of w)"
    "findIndexByVersion E (persisted_version w) = Inr s"
    "findIndexByVersion E v = Inr t"
    "number_less v (persisted_version w)"
    "\<forall>j. t < j \<and> j \<le> s \<longrightarrow> down (migrations E ! nat j) = Some Resolves"
  shows "priv_migrateTo E v False w =
     (Inr \<lparr>success = True, fromVersion = persisted_version w, toVersion = v,
           migrationsRun = nat (s - t), error = None\<rparr>,
      finished w (concat (map (down_events E) (rev [t + 1..s])))
        (if t < s then v else persisted_version w))"
proof (cases "t < s")
  case True
  let ?w2 = "(after_lock w)\<lparr>trace := trace (after_lock w) @ concat (map (down_events E) (rev [t + 1..s])),
       collection := set_version v (collection (after_lock w))\<rparr>"
  have "apply_phase E (persisted_version w) v False (after_lock w) =
      down_loop E t t (nat (s - t)) ?w2"
    using apply_phase_backward [of E "after_lock w" "persisted_version w" s v t t]
      number_less_asym [OF assms(6)]
      assms True version_before_target [OF assms(5)] by simp
  then have ap: "apply_phase E (persisted_version w) v False (after_lock w) =
      ((None, nat (s - t)), ?w2)"
    by (simp add: down_loop_done)
  have "priv_migrateTo E v False w =
     (Inr \<lparr>success = (None = (None :: exn option)), fromVersion = persisted_version w,
           toVersion = v, migrationsRun = nat (s - t),
           error = map_option as_Error None\<rparr>, after_unlock ?w2)"
    using assms ap number_less_not_equal [OF assms(6)] by (intro priv_migrateTo_run) auto
  moreover have "after_unlock ?w2 =
      finished w (concat (map (down_events E) (rev [t + 1..s]))) v"
    by (simp add: after_unlock_def after_lock_def finished_def set_version_def persisted_version_def)
  ultimately show ?thesis using True by simp
next
  case False
  have ap: "apply_phase E (persisted_version w) v False (after_lock w) =
      ((None, 0), after_lock w)"
    using assms False number_less_asym [OF assms(6)]
    by (simp add: apply_phase_def down_loop_done)
  have "priv_migrateTo E v False w =
     (Inr \<lparr>success = (None = (None :: exn option)), fromVersion = persisted_version w,
           toVersion = v, migrationsRun = 0,
           error = map_option as_Error None\<rparr>, after_unlock (after_lock w))"
    using assms ap number_less_not_equal [OF assms(6)] by (intro priv_migrateTo_run) auto
  moreover have "after_unlock (after_lock w) = finished w [] (persisted_version w)"
    by (simp add: after_unlock_def after_lock_def finished_def set_version_def persisted_version_def)
  ultimately show ?thesis using False by simp
qed

lemma run_backward_fail:
  assumes "dbConnection E" "faults w = []" "\<not> locked (control_of w)"
    "findIndexByVersion E (persisted_version w) = Inr s"
    "findIndexByVersion E v = Inr t"
    "number_less v (persisted_version w)" "t < k" "k \<le> s"
    "\<forall>j. k < j \<and> j \<le> s \<longrightarrow> down (migrations E ! nat j) = Some Resolves"
    "step_failure Down (migrations E ! nat k) = Some (x, evs)"
  shows "priv_migrateTo E v False w =
     (Inr \<lparr>success = False, fromVersion = persisted_version w, toVersion = v,
           migrationsRun = nat (s - k), error = Some (as_Error x)\<rparr>,
      finished w (concat (map (down_events E) (rev [k + 1..s])) @ evs)
        (if k < s then version_before E (k + 1) else persisted_version w))"
proof -
  have k0: "0 \<le> k" using findIndexByVersion_Inr(1) [OF assms(5)] assms(7) by simp
  have kl: "k < int (length (migrations E))"
    using findIndexByVersion_Inr(2) [OF assms(4)] assms(8) by simp
  let ?w1 = "(after_lock w)\<lparr>trace := trace (after_lock w) @ concat (map (down_events E) (rev [k + 1..s])),
       collection := (if k < s
                      then set_version (version_before E (k + 1)) (collection (after_lock w))
                      else collection (after_lock w))\<rparr>"
  have tk: "t \<le> k" using assms(7) by simp
  have "apply_phase E (persisted_version w) v False (after_lock w) =
      down_loop E k t (nat (s - k)) ?w1"
    using apply_phase_backward [of E "after_lock w" "persisted_version w" s v t k] assms tk
      number_less_asym [OF assms(6)]
    by simp
  also have "\<dots> = ((Some x, nat (s - k)), ?w1\<lparr>trace := trace ?w1 @ evs\<rparr>)"
    using assms k0 kl by (intro down_loop_throw) auto
  finally have ap: "apply_phase E (persisted_version w) v False (after_lock w) =
      ((Some x, nat (s - k)), ?w1\<lparr>trace := trace ?w1 @ evs\<rparr>)" .
  have ne: "False \<or> \<not> strict_equal (persisted_version w) v"
    using number_less_not_equal(2) [OF assms(6)] by simp
  have "priv_migrateTo E v False w =
     (Inr \<lparr>success = (Some x = None), fromVersion = persisted_version w,
           toVersion = v, migrationsRun = nat (s - k),
           error = map_option as_Error (Some x)\<rparr>, after_unlock (?w1\<lparr>trace := trace ?w1 @ evs\<rparr>))"
    using assms(1-3) ne ap by (intro priv_migrateTo_run) auto
  moreover have "after_unlock (?w1\<lparr>trace := trace ?w1 @ evs\<rparr>) =
      finished w (concat (map (down_events E) (rev [k + 1..s])) @ evs)
        (if k < s then version_before E (k + 1) else persisted_version w)"
    by (simp add: after_unlock_def after_lock_def finished_def set_version_def persisted_version_def)
  ultimately show ?thesis by simp
qed

section \<open>Registration\<close>

lemma insort_key_front:
  "\<forall>y\<in>set xs. f a \<le> f y \<Longrightarrow> insort_key f a xs = a # xs"
  by (cases xs) simp_all

lemma sort_key_snoc:
  "sorted (map f xs) \<Longrightarrow>
   sort_key f (xs @ [x]) = filter (\<lambda>y. f y \<le> f x) xs @ [x] @ filter (\<lambda>y. f x < f y) xs"
proof (induction xs)
  case Nil
  then show ?case by simp
next
  case (Cons a xs)
  then have IH: "sort_key f (xs @ [x]) =
      filter (\<lambda>y. f y \<le> f x) xs @ [x] @ filter (\<lambda>y. f x < f y) xs"
    and le: "\<forall>y\<in>set xs. f a \<le> f y" by auto
  show ?case
  proof (cases "f a \<le> f x")
    case True
    let ?L = "filter (\<lambda>y. f y \<le> f x) xs @ [x] @ filter (\<lambda>y. f x < f y) xs"
    have front: "\<forall>y\<in>set ?L. f a \<le> f y"
      using le True by auto
    have "sort_key f ((a # xs) @ [x]) = insort_key f a (sort_key f (xs @ [x]))" by simp
    also have "\<dots> = insort_key f a ?L" by (simp only: IH)
    also have "\<dots> = a # ?L" using front by (rule insort_key_front)
    finally show ?thesis using True by simp
  next
    case False
    then have all: "\<forall>y\<in>set xs. f x < f y" using le by fastforce
    then have f1: "filter (\<lambda>y. f y \<le> f x) xs = []" by (auto simp: filter_empty_conv)
    have f2: "filter (\<lambda>y. f x < f y) xs = xs" using all by (simp add: filter_id_conv)
    show ?thesis using False IH f1 f2 le by (simp add: insort_key_front)
  qed
qed

lemma sort_compare_le:
  "a \<noteq> NaN \<Longrightarrow> b \<noteq> NaN \<Longrightarrow> (sort_compare a b \<le> 0) = (a \<le> b)"
  by (cases a; cases b) (auto simp: sort_compare_def less_eq_number_def)

lemma set_insert_by_version: "set (insert_by_version x ys) = insert x (set ys)"
  by (induction ys) auto

lemma length_insert_by_version: "length (insert_by_version x ys) = Suc (length ys)"
  by (induction ys) auto

lemma set_sort_by_version: "set (sort_by_version ms) = set ms"
  unfolding sort_by_version_def by (induction ms) (auto simp: set_insert_by_version)

lemma length_sort_by_version: "length (sort_by_version ms) = length ms"
  unfolding sort_by_version_def by (induction ms) (auto simp: length_insert_by_version)

lemma insert_by_version_insort:
  "version x \<noteq> NaN \<Longrightarrow> \<forall>y\<in>set ys. version y \<noteq> NaN \<Longrightarrow>
   insert_by_version x ys = insort_key version x ys"
  by (induction ys) (auto simp: sort_compare_le)

lemma sort_by_version_sort_key:
  "\<forall>y\<in>set ms. version y \<noteq> NaN \<Longrightarrow> sort_by_version ms = sort_key version ms"
proof (induction ms)
  case Nil
  then show ?case by (simp add: sort_by_version_def)
next
  case (Cons m ms)
  then have IH: "sort_by_version ms = sort_key version ms" by simp
  have "sort_by_version (m # ms) = insert_by_version m (sort_by_version ms)"
    by (simp add: sort_by_version_def)
  also have "\<dots> = insort_key version m (sort_by_version ms)"
    using Cons.prems by (intro insert_by_version_insort) (auto simp: set_sort_by_version)
  finally show ?case using IH by simp
qed

lemma add_result:
  "add E a =
     (if arg_up a = None then (Inl MustSupplyUp, E)
      else if arg_version a = None then (Inl MustSupplyVersion, E)
      else if number_le (the (arg_version a)) (Num 0) then (Inl VersionMustBeGreaterThan0, E)
      else (Inr (), E\<lparr>migrations := sort_by_version (migrations E @ [stored a])\<rparr>))"
  by (auto simp: add_def stored_def split: option.splits)

lemma positive_version:
  "v \<noteq> NaN \<Longrightarrow> \<not> number_le v (Num 0) \<Longrightarrow> number_less (Num 0) v"
  by (cases v) (auto simp: number_le_def strict_equal_def)

lemma add_keeps_registry_ok:
  assumes "registry_ok E" "arg_version a \<noteq> Some NaN"
  shows "registry_ok (snd (add E a))"
proof (cases "arg_up a = None \<or> arg_version a = None \<or> number_le (the (arg_version a)) (Num 0)")
  case True
  then show ?thesis using assms(1) by (auto simp: add_result)
next
  case False
  then have v: "version (stored a) \<noteq> NaN" "\<not> number_le (version (stored a)) (Num 0)"
    using assms(2) by (auto simp: stored_def)
  have old: "\<forall>m\<in>set (migrations E). number_less (Num 0) (version m) \<and> up m \<noteq> None"
    using assms(1) by (simp add: registry_ok_def list_all_iff)
  then have nn: "\<forall>y\<in>set (migrations E @ [stored a]). version y \<noteq> NaN"
    using v(1) number_less_not_NaN by auto
  have "sort_by_version (migrations E @ [stored a]) =
      sort_key version (migrations E @ [stored a])"
    using nn by (rule sort_by_version_sort_key)
  moreover have "up (stored a) \<noteq> None" using False by (simp add: stored_def)
  ultimately show ?thesis
    using False old positive_version [OF v]
    by (auto simp: add_result registry_ok_def list_all_iff)
qed

text \<open>
  C1 (as amended). \<open>add\<close> fails, leaving the instance as it was, exactly when \<open>up\<close> is not
  a function, or \<open>version\<close> is not of type number, or \<open>version <= 0\<close> holds. Otherwise it
  stores the migration, also when the version is fractional, is \<open>NaN\<close> or infinite, or
  equals a version already registered: the registry gains exactly this one entry. When
  neither the new version nor a registered one is \<open>NaN\<close>, the registry is then sorted by
  version, and if it was sorted before, the new entry stands after the entries of the same
  or a smaller version and the others keep their order.
\<close>

theorem add_validation:
  "(if arg_up a = None \<or> arg_version a = None \<or> number_le (the (arg_version a)) (Num 0)
    then \<exists>e. add E a = (Inl e, E) \<and>
             e \<in> {MustSupplyUp, MustSupplyVersion, VersionMustBeGreaterThan0}
    else \<exists>E'. add E a = (Inr (), E') \<and> dbConnection E' = dbConnection E \<and>
              set (migrations E') = insert (stored a) (set (migrations E)) \<and>
              length (migrations E') = Suc (length (migrations E)) \<and>
              (the (arg_version a) \<noteq> NaN \<and> (\<forall>m\<in>set (migrations E). version m \<noteq> NaN) \<longrightarrow>
                 sorted (map version (migrations E')) \<and>
                 (sorted (map version (migrations E)) \<longrightarrow>
                    migrations E' =
                      filter (\<lambda>m. number_le (version m) (the (arg_version a))) (migrations E) @
                      [stored a] @
                      filter (\<lambda>m. number_less (the (arg_version a)) (version m))
                        (migrations E))))"
proof (cases "arg_up a = None \<or> arg_version a = None \<or> number_le (the (arg_version a)) (Num 0)")
  case True
  then show ?thesis by (auto simp: add_result)
next
  case False
  let ?ms = "migrations E"
  let ?v = "the (arg_version a)"
  have v: "version (stored a) = ?v" by (simp add: stored_def)
  have basic: "set (sort_by_version (?ms @ [stored a])) = insert (stored a) (set ?ms)"
    "length (sort_by_version (?ms @ [stored a])) = Suc (length ?ms)"
    by (simp_all add: set_sort_by_version length_sort_by_version)
  have ordered: "sorted (map version (sort_by_version (?ms @ [stored a]))) \<and>
      (sorted (map version ?ms) \<longrightarrow>
         sort_by_version (?ms @ [stored a]) =
           filter (\<lambda>m. number_le (version m) ?v) ?ms @ [stored a] @
           filter (\<lambda>m. number_less ?v (version m)) ?ms)"
    if nn: "?v \<noteq> NaN \<and> (\<forall>m\<in>set ?ms. version m \<noteq> NaN)"
  proof -
    have eq: "sort_by_version (?ms @ [stored a]) = sort_key version (?ms @ [stored a])"
      using nn v by (intro sort_by_version_sort_key) auto
    have f1: "filter (\<lambda>m. number_le (version m) ?v) ?ms =
        filter (\<lambda>m. version m \<le> version (stored a)) ?ms"
      using nn v by (intro filter_cong) (auto simp: number_le_iff)
    have f2: "filter (\<lambda>m. number_less ?v (version m)) ?ms =
        filter (\<lambda>m. version (stored a) < version m) ?ms"
      using nn v by (intro filter_cong) (auto simp: number_less_iff)
    show ?thesis
      unfolding eq f1 f2 using sort_key_snoc [of version ?ms "stored a"] by simp
  qed
  have "add E a = (Inr (), E\<lparr>migrations := sort_by_version (?ms @ [stored a])\<rparr>)"
    using False by (simp add: add_result)
  then show ?thesis using False basic ordered by (simp del: append.simps)
qed

text \<open>
  C1, witness: version \<open>0\<close> is refused and the instance is unchanged; version \<open>3/2\<close>
  is stored in front of version \<open>2\<close>; version \<open>NaN\<close> is stored.
\<close>

theorem add_validation_witness:
  "snd (add \<lparr>migrations = [], dbConnection = False\<rparr>
            \<lparr>arg_version = Some (Num 0), arg_name = None, arg_up = Some Resolves,
             arg_down = None\<rparr>) = \<lparr>migrations = [], dbConnection = False\<rparr> \<and>
   migrations
     (snd (add \<lparr>migrations = [migration_of 2 Resolves None], dbConnection = False\<rparr>
               \<lparr>arg_version = Some (Num (3 / 2)), arg_name = None, arg_up = Some Resolves,
                arg_down = None\<rparr>)) =
     [migration_of (3 / 2) Resolves None, migration_of 2 Resolves None] \<and>
   set (migrations
     (snd (add \<lparr>migrations = [migration_of 2 Resolves None], dbConnection = False\<rparr>
               \<lparr>arg_version = Some NaN, arg_name = None, arg_up = Some Resolves,
                arg_down = None\<rparr>))) =
     {\<lparr>version = NaN, name = None, up = Some Resolves, down = None\<rparr>,
      migration_of 2 Resolves None}"
proof -
  from add_validation
      [of "\<lparr>arg_version = Some (Num 0), arg_name = None, arg_up = Some Resolves,
            arg_down = None\<rparr>"
          "\<lparr>migrations = [], dbConnection = False\<rparr>"]
  obtain e where
    "add \<lparr>migrations = [], dbConnection = False\<rparr>
         \<lparr>arg_version = Some (Num 0), arg_name = None, arg_up = Some Resolves,
          arg_down = None\<rparr> =
       (Inl e, \<lparr>migrations = [], dbConnection = False\<rparr>)"
    by (auto simp: number_le_def strict_equal_def)
  then have refused:
    "snd (add \<lparr>migrations = [], dbConnection = False\<rparr>
              \<lparr>arg_version = Some (Num 0), arg_name = None, arg_up = Some Resolves,
               arg_down = None\<rparr>) = \<lparr>migrations = [], dbConnection = False\<rparr>"
    by simp
  from add_validation
      [of "\<lparr>arg_version = Some (Num (3 / 2)), arg_name = None, arg_up = Some Resolves,
            arg_down = None\<rparr>"
          "\<lparr>migrations = [migration_of 2 Resolves None], dbConnection = False\<rparr>"]
  obtain E' where
    "add \<lparr>migrations = [migration_of 2 Resolves None], dbConnection = False\<rparr>
         \<lparr>arg_version = Some (Num (3 / 2)), arg_name = None, arg_up = Some Resolves,
          arg_down = None\<rparr> = (Inr (), E')"
    and "migrations E' =
      [migration_of (3 / 2) Resolves None, migration_of 2 Resolves None]"
    by (auto simp: stored_def migration_of_def number_le_def strict_equal_def)
  then have accepted:
    "migrations
      (snd (add \<lparr>migrations = [migration_of 2 Resolves None], dbConnection = False\<rparr>
                \<lparr>arg_version = Some (Num (3 / 2)), arg_name = None, arg_up = Some Resolves,
                 arg_down = None\<rparr>)) =
      [migration_of (3 / 2) Resolves None, migration_of 2 Resolves None]"
    by simp
  from add_validation
      [of "\<lparr>arg_version = Some NaN, arg_name = None, arg_up = Some Resolves,
            arg_down = None\<rparr>"
          "\<lparr>migrations = [migration_of 2 Resolves None], dbConnection = False\<rparr>"]
  obtain E'' where
    "add \<lparr>migrations = [migration_of 2 Resolves None], dbConnection = False\<rparr>
         \<lparr>arg_version = Some NaN, arg_name = None, arg_up = Some Resolves,
          arg_down = None\<rparr> = (Inr (), E'')"
    and "set (migrations E'') =
      {\<lparr>version = NaN, name = None, up = Some Resolves, down = None\<rparr>,
       migration_of 2 Resolves None}"
    by (auto simp: stored_def number_le_def strict_equal_def)
  then have not_a_number:
    "set (migrations
      (snd (add \<lparr>migrations = [migration_of 2 Resolves None], dbConnection = False\<rparr>
                \<lparr>arg_version = Some NaN, arg_name = None, arg_up = Some Resolves,
                 arg_down = None\<rparr>))) =
      {\<lparr>version = NaN, name = None, up = Some Resolves, down = None\<rparr>,
       migration_of 2 Resolves None}"
    by simp
  from refused accepted not_a_number show ?thesis by blast
qed

text \<open>
  C1, counterexample: a second migration of version \<open>1\<close> is accepted and stored beside
  the first.
\<close>

theorem add_duplicate_counterexample:
  "fst (add \<lparr>migrations = [\<lparr>version = Num 1, name = None, up = Some Resolves, down = None\<rparr>],
             dbConnection = False\<rparr>
            \<lparr>arg_version = Some (Num 1), arg_name = Some ''again'', arg_up = Some Resolves,
             arg_down = None\<rparr>) = Inr () \<and>
   migrations
     (snd (add \<lparr>migrations = [\<lparr>version = Num 1, name = None, up = Some Resolves, down = None\<rparr>],
                dbConnection = False\<rparr>
               \<lparr>arg_version = Some (Num 1), arg_name = Some ''again'', arg_up = Some Resolves,
                arg_down = None\<rparr>)) =
     [\<lparr>version = Num 1, name = None, up = Some Resolves, down = None\<rparr>,
      \<lparr>version = Num 1, name = Some ''again'', up = Some Resolves, down = None\<rparr>]"
  by (simp add: add_def number_le_def strict_equal_def sort_by_version_def sort_compare_def)

section \<open>The lock that is held, and the comparison of versions\<close>

lemmas example_defs =
  migration_of_def engine_of_def world_of_def control_doc_def control_of_def
  persisted_version_def read_events_def after_read_def finished_def

text \<open>
  C8. When the control document is locked, a call that gets past the comparison of the
  versions returns a result with \<open>success = false\<close>, the error
  \<open>Migration control is locked\<close> and \<open>migrationsRun = 0\<close>; the driver is called
  twice (the read and one attempt to lock), no action is invoked, and the control document
  is as before.
\<close>

theorem locked_run_returns:
  assumes "dbConnection E" "faults w = []" "locked (control_of w)"
    "rerun \<or> \<not> strict_equal (persisted_version w) v"
  shows "fst (priv_migrateTo E v rerun w) =
           Inr \<lparr>success = False, fromVersion = persisted_version w, toVersion = v,
                 migrationsRun = 0, error = Some ControlLocked\<rparr> \<and>
         trace (snd (priv_migrateTo E v rerun w)) = trace w @ [EvFindOne, EvLock] \<and>
         collection (snd (priv_migrateTo E v rerun w)) = collection w"
proof -
  have "collection w \<noteq> None" using assms(3) by (cases "collection w") (auto simp: control_of_def)
  then show ?thesis
    using priv_migrateTo_locked [OF assms]
    by (auto simp: read_events_def control_of_def)
qed

text \<open>
  C8, witness: the control document is locked at version \<open>0\<close>, the target is \<open>1\<close>.
\<close>

theorem locked_run_returns_witness:
  "fst (priv_migrateTo (engine_of [migration_of 1 Resolves None]) (Num 1) False
          (world_of (Some (control_doc 0 True)) [])) =
     Inr \<lparr>success = False, fromVersion = Num 0, toVersion = Num 1, migrationsRun = 0,
           error = Some ControlLocked\<rparr> \<and>
   trace (snd (priv_migrateTo (engine_of [migration_of 1 Resolves None]) (Num 1) False
          (world_of (Some (control_doc 0 True)) []))) = [EvFindOne, EvLock]"
  using locked_run_returns [of "engine_of [migration_of 1 Resolves None]"
      "world_of (Some (control_doc 0 True)) []" False "Num 1"]
  by (simp add: example_defs strict_equal_def)

text \<open>
  C10. With a connection and a non-empty registry, \<open>migrateTo\<close> with the number that
  equals the persisted version (so neither is \<open>NaN\<close>) returns \<open>success = true\<close> and
  \<open>migrationsRun = 0\<close> after the read of the control document alone, whatever the
  registry holds.
\<close>

theorem fast_path_before_lookup:
  assumes "dbConnection E" "migrations E \<noteq> []" "faults w = []"
    "persisted_version w \<noteq> NaN"
  shows "migrateTo E (CmdNumber (persisted_version w)) w =
     (Returned \<lparr>success = True, fromVersion = persisted_version w,
                toVersion = persisted_version w, migrationsRun = 0, error = None\<rparr>,
      after_read w)"
  using assms
  by (simp add: migrateTo_def parseCommand_def priv_migrateTo_fast strict_equal_def)

text \<open>
  C10, witness: version \<open>7\<close> is persisted and not registered; the lookup of \<open>7\<close> would
  fail, and \<open>migrateTo(7)\<close> succeeds.
\<close>

theorem fast_path_before_lookup_witness:
  "findIndexByVersion (engine_of [migration_of 1 Resolves None]) (Num 7) =
     Inl (CantFindVersion (Num 7)) \<and>
   migrateTo (engine_of [migration_of 1 Resolves None]) (CmdNumber (Num 7))
      (world_of (Some (control_doc 7 False)) []) =
     (Returned \<lparr>success = True, fromVersion = Num 7, toVersion = Num 7, migrationsRun = 0,
                error = None\<rparr>,
      \<lparr>collection = Some (control_doc 7 False), faults = [], trace = [EvFindOne], now = 0\<rparr>)"
  using fast_path_before_lookup [of "engine_of [migration_of 1 Resolves None]"
      "world_of (Some (control_doc 7 False)) []"]
  by (simp add: example_defs findIndexByVersion_def strict_equal_def)

section \<open>Failing steps and the backward walk\<close>

text \<open>
  C2. In a run that is not a rerun and has acquired the lock, let the step at index
  \<open>k\<close> be the first whose action throws, \<open>x\<close>. Then no later step is invoked, the lock
  is released, and the result has \<open>success = false\<close>, \<open>migrationsRun\<close> the number of
  steps completed before, and \<open>fromVersion\<close> the version read at entry, while the
  persisted version is the one written by the last completed step. Forward and backward.
\<close>

theorem failing_step_stops_run:
  assumes "dbConnection E" "faults w = []" "\<not> locked (control_of w)"
    "findIndexByVersion E (persisted_version w) = Inr s"
    "findIndexByVersion E v = Inr e"
  shows
    "(number_less (persisted_version w) v \<and> s < k \<and> k \<le> e \<and>
      (\<forall>j. s < j \<and> j < k \<longrightarrow> up (migrations E ! nat j) = Some Resolves) \<and>
      up (migrations E ! nat k) = Some (Throws x) \<longrightarrow>
      priv_migrateTo E v False w =
        (Inr \<lparr>success = False, fromVersion = persisted_version w, toVersion = v,
              migrationsRun = nat (k - s - 1), error = Some (as_Error x)\<rparr>,
         finished w
           (concat (map (up_events E) [s + 1..k - 1]) @ [EvRun Up (migrations E ! nat k)])
           (if s + 1 < k then version (migrations E ! nat (k - 1))
            else persisted_version w))) \<and>
     (number_less v (persisted_version w) \<and> e < k \<and> k \<le> s \<and>
      (\<forall>j. k < j \<and> j \<le> s \<longrightarrow> down (migrations E ! nat j) = Some Resolves) \<and>
      down (migrations E ! nat k) = Some (Throws x) \<longrightarrow>
      priv_migrateTo E v False w =
        (Inr \<lparr>success = False, fromVersion = persisted_version w, toVersion = v,
              migrationsRun = nat (s - k), error = Some (as_Error x)\<rparr>,
         finished w
           (concat (map (down_events E) (rev [k + 1..s])) @
            [EvRun Down (migrations E ! nat k)])
           (if k < s then version_before E (k + 1) else persisted_version w)))"
proof (intro conjI impI)
  assume a: "number_less (persisted_version w) v \<and> s < k \<and> k \<le> e \<and>
      (\<forall>j. s < j \<and> j < k \<longrightarrow> up (migrations E ! nat j) = Some Resolves) \<and>
      up (migrations E ! nat k) = Some (Throws x)"
  then have "step_failure Up (migrations E ! nat k) = Some (x, [EvRun Up (migrations E ! nat k)])"
    by (simp add: step_failure_def)
  with a assms show "priv_migrateTo E v False w =
        (Inr \<lparr>success = False, fromVersion = persisted_version w, toVersion = v,
              migrationsRun = nat (k - s - 1), error = Some (as_Error x)\<rparr>,
         finished w
           (concat (map (up_events E) [s + 1..k - 1]) @ [EvRun Up (migrations E ! nat k)])
           (if s + 1 < k then version (migrations E ! nat (k - 1))
            else persisted_version w))"
    by (intro run_forward_fail) auto
next
  assume a: "number_less v (persisted_version w) \<and> e < k \<and> k \<le> s \<and>
      (\<forall>j. k < j \<and> j \<le> s \<longrightarrow> down (migrations E ! nat j) = Some Resolves) \<and>
      down (migrations E ! nat k) = Some (Throws x)"
  then have "step_failure Down (migrations E ! nat k) =
      Some (x, [EvRun Down (migrations E ! nat k)])"
    by (simp add: step_failure_def)
  with a assms show "priv_migrateTo E v False w =
        (Inr \<lparr>success = False, fromVersion = persisted_version w, toVersion = v,
              migrationsRun = nat (s - k), error = Some (as_Error x)\<rparr>,
         finished w
           (concat (map (down_events E) (rev [k + 1..s])) @
            [EvRun Down (migrations E ! nat k)])
           (if k < s then version_before E (k + 1) else persisted_version w))"
    by (intro run_backward_fail) auto
qed

text \<open>
  C2, witness: the registry \<open>[1 ok, 2 throws, 3 ok]\<close> migrated from \<open>0\<close> to \<open>3\<close>.
\<close>

theorem failing_step_stops_run_witness:
  "priv_migrateTo
     (engine_of [migration_of 1 Resolves None,
                 migration_of 2 (Throws (UserError ''boom'')) None,
                 migration_of 3 Resolves None])
     (Num 3) False (world_of (Some (control_doc 0 False)) []) =
   (Inr \<lparr>success = False, fromVersion = Num 0, toVersion = Num 3, migrationsRun = 1,
         error = Some (UserError ''boom'')\<rparr>,
    \<lparr>collection = Some \<lparr>control_version = Num 1, locked = False, lockedAt = Some 0\<rparr>,
     faults = [],
     trace = [EvFindOne, EvLock, EvRun Up (migration_of 1 Resolves None),
              EvUpdateVersion (Num 1),
              EvRun Up (migration_of 2 (Throws (UserError ''boom'')) None), EvUnlock],
     now = 0\<rparr>)"
proof -
  have j: "\<And>j :: int. - 1 < j \<Longrightarrow> j < 1 \<Longrightarrow> j = 0" by arith
  have "\<forall>j :: int. - 1 < j \<and> j < 1 \<longrightarrow>
      up (migrations (engine_of [migration_of 1 Resolves None,
                 migration_of 2 (Throws (UserError ''boom'')) None,
                 migration_of 3 Resolves None]) ! nat j) = Some Resolves"
    using j by (auto simp: example_defs)
  then show ?thesis
    using failing_step_stops_run
      [of "engine_of [migration_of 1 Resolves None,
                 migration_of 2 (Throws (UserError ''boom'')) None,
                 migration_of 3 Resolves None]"
          "world_of (Some (control_doc 0 False)) []" "- 1" "Num 3" 2 1 "UserError ''boom''"]
    by (simp add: example_defs findIndexByVersion_def strict_equal_def up_events_def as_Error_def)
qed



section \<open>Failures after the lock is acquired\<close>














lemma priv_migrateTo_after_lock:
  assumes "dbConnection E" "priv_getControl E w = (Inr c, w0)"
    "rerun \<or> \<not> strict_equal (control_version c) v" "lock E w0 = (Inr True, w1)"
  shows "priv_migrateTo E v rerun w =
     (case try_block E (control_version c) v rerun w1 of
        ((None, run), w2) \<Rightarrow>
          (Inr \<lparr>success = True, fromVersion = control_version c, toVersion = v,
                migrationsRun = run, error = None\<rparr>, w2)
      | ((Some e, run), w2) \<Rightarrow>
          (case unlock E w2 of
             (Inl e', w3) \<Rightarrow> (Inl e', w3)
           | (Inr _, w3) \<Rightarrow>
               (Inr \<lparr>success = False, fromVersion = control_version c, toVersion = v,
                     migrationsRun = run, error = Some (as_Error e)\<rparr>, w3)))"
  using assms by (auto simp: priv_migrateTo_def Let_def)






section \<open>Rejected version updates and missing versions\<close>

lemmas run_defs =
  priv_migrateTo_def priv_getControl_def priv_setControl_def lock_def unlock_def
  updateVersion_def db_call_def try_block_def apply_phase_def findIndexByVersion_def
  runMigration_def element_at_def strict_equal_def as_Error_def up_loop.simps
  down_loop.simps Let_def



lemma apply_phase_missing_target:
  assumes "findIndexByVersion E n = Inl e"
    "rerun \<or> (\<exists>s. findIndexByVersion E cur = Inr s)"
  shows "apply_phase E cur n rerun w = ((Some e, 0), w)"
  using assms by (auto simp: apply_phase_def)

lemma apply_phase_missing_current:
  assumes "\<not> rerun" "findIndexByVersion E cur = Inl e"
  shows "apply_phase E cur n rerun w = ((Some e, 0), w)"
  using assms by (simp add: apply_phase_def)

lemma findIndexByVersion_cases:
  "(n = Num 0 \<or> (n \<noteq> NaN \<and> (\<exists>m\<in>set (migrations E). version m = n)) \<longrightarrow>
      (\<exists>s. findIndexByVersion E n = Inr s)) \<and>
   (\<not> (n = Num 0 \<or> (n \<noteq> NaN \<and> (\<exists>m\<in>set (migrations E). version m = n))) \<longrightarrow>
      findIndexByVersion E n = Inl (CantFindVersion n))"
proof (intro conjI impI)
  assume "n = Num 0 \<or> (n \<noteq> NaN \<and> (\<exists>m\<in>set (migrations E). version m = n))"
  then show "\<exists>s. findIndexByVersion E n = Inr s"
  proof (cases "n = Num 0")
    case True
    then show ?thesis using findIndexByVersion_zero [of E] by simp
  next
    case False
    assume "n = Num 0 \<or> (n \<noteq> NaN \<and> (\<exists>m\<in>set (migrations E). version m = n))"
    then have "n \<noteq> NaN" "\<exists>m\<in>set (migrations E). version m = n" using False by auto
    then show ?thesis using findIndexByVersion_present [OF False] by blast
  qed
next
  assume "\<not> (n = Num 0 \<or> (n \<noteq> NaN \<and> (\<exists>m\<in>set (migrations E). version m = n)))"
  then show "findIndexByVersion E n = Inl (CantFindVersion n)"
    by (intro findIndexByVersion_missing) auto
qed

text \<open>
  C6 (as amended). The lookup of version \<open>0\<close> yields the index \<open>-1\<close>; the lookup of
  another version yields the index of the first stored migration of that version, and fails
  with \<open>Can't find migration version\<close> when there is none (always for \<open>NaN\<close>). With a
  connection and a driver that accepts every call, a run for such a missing target: returns
  a successful result after the read alone, without a lookup, when it is not a rerun and
  the target equals the persisted version; returns the result of a locked control document
  when that is locked; and otherwise locks, returns a failed result with
  \<open>migrationsRun = 0\<close> and unlocks, without invoking an action. The error of that result
  is the failed lookup of the target when the run is a rerun or the persisted version is
  \<open>0\<close> or registered, and the failed lookup of the persisted version otherwise, which is
  looked up first.
\<close>

theorem lookup_of_target:
  "findIndexByVersion E (Num 0) = Inr (- 1) \<and>
   (n \<noteq> Num 0 \<and> n \<noteq> NaN \<and> (\<exists>m\<in>set (migrations E). version m = n) \<longrightarrow>
      (\<exists>i. findIndexByVersion E n = Inr i \<and> 0 \<le> i \<and> i < int (length (migrations E)) \<and>
           version (migrations E ! nat i) = n \<and>
           (\<forall>j. 0 \<le> j \<and> j < i \<longrightarrow> version (migrations E ! nat j) \<noteq> n))) \<and>
   (n \<noteq> Num 0 \<and> (n = NaN \<or> (\<forall>m\<in>set (migrations E). version m \<noteq> n)) \<longrightarrow>
      findIndexByVersion E n = Inl (CantFindVersion n) \<and>
      (dbConnection E \<and> faults w = [] \<longrightarrow>
         (\<not> rerun \<and> strict_equal (persisted_version w) n \<longrightarrow>
            priv_migrateTo E n rerun w =
              (Inr \<lparr>success = True, fromVersion = persisted_version w, toVersion = n,
                    migrationsRun = 0, error = None\<rparr>, after_read w)) \<and>
         ((rerun \<or> \<not> strict_equal (persisted_version w) n) \<and> locked (control_of w) \<longrightarrow>
            priv_migrateTo E n rerun w =
              (Inr \<lparr>success = False, fromVersion = persisted_version w, toVersion = n,
                    migrationsRun = 0, error = Some ControlLocked\<rparr>,
               (after_read w)\<lparr>trace := trace w @ read_events w @ [EvLock]\<rparr>)) \<and>
         ((rerun \<or> \<not> strict_equal (persisted_version w) n) \<and> \<not> locked (control_of w) \<longrightarrow>
            priv_migrateTo E n rerun w =
              (Inr \<lparr>success = False, fromVersion = persisted_version w, toVersion = n,
                    migrationsRun = 0,
                    error = Some (CantFindVersion
                      (if rerun \<or> persisted_version w = Num 0 \<or>
                          (persisted_version w \<noteq> NaN \<and>
                           (\<exists>m\<in>set (migrations E). version m = persisted_version w))
                       then n else persisted_version w))\<rparr>,
               finished w [] (persisted_version w)))))"
  (is "?zero \<and> ?present \<and> (?absent \<longrightarrow> ?fails \<and> (?ready \<longrightarrow> ?fast \<and> ?held \<and> ?refused))")
proof (intro conjI impI)
  show ?zero by (rule findIndexByVersion_zero)
next
  assume a: "n \<noteq> Num 0 \<and> n \<noteq> NaN \<and> (\<exists>m\<in>set (migrations E). version m = n)"
  let ?P = "\<lambda>m. strict_equal (version m) n"
  let ?i = "findIndex ?P (migrations E)"
  have f: "findIndexByVersion E n = Inr ?i" using a by (intro findIndexByVersion_present) auto
  note fi = findIndexByVersion_Inr [OF f]
  have ne: "?i \<noteq> - 1" using a fi(3) by blast
  then have i0: "0 \<le> ?i" using fi(1) by linarith
  have first: "\<forall>j. 0 \<le> j \<and> j < ?i \<longrightarrow> version (migrations E ! nat j) \<noteq> n"
    using fi(6) by blast
  show "\<exists>i. findIndexByVersion E n = Inr i \<and> 0 \<le> i \<and> i < int (length (migrations E)) \<and>
           version (migrations E ! nat i) = n \<and>
           (\<forall>j. 0 \<le> j \<and> j < i \<longrightarrow> version (migrations E ! nat j) \<noteq> n)"
    using f i0 fi(2) fi(4) [OF i0] first by blast
next
  assume ?absent
  then show ?fails by (intro findIndexByVersion_missing) auto
next
  assume ?absent and b: ?ready and c: "\<not> rerun \<and> strict_equal (persisted_version w) n"
  then have r: "rerun = False" by simp
  show "priv_migrateTo E n rerun w =
              (Inr \<lparr>success = True, fromVersion = persisted_version w, toVersion = n,
                    migrationsRun = 0, error = None\<rparr>, after_read w)"
    unfolding r using b c by (intro priv_migrateTo_fast) simp_all
next
  assume ?absent and b: ?ready
    and c: "(rerun \<or> \<not> strict_equal (persisted_version w) n) \<and> locked (control_of w)"
  show "priv_migrateTo E n rerun w =
              (Inr \<lparr>success = False, fromVersion = persisted_version w, toVersion = n,
                    migrationsRun = 0, error = Some ControlLocked\<rparr>,
               (after_read w)\<lparr>trace := trace w @ read_events w @ [EvLock]\<rparr>)"
    using b c by (intro priv_migrateTo_locked) simp_all
next
  assume a: ?absent and b: ?ready
    and c: "(rerun \<or> \<not> strict_equal (persisted_version w) n) \<and> \<not> locked (control_of w)"
  let ?pv = "persisted_version w"
  let ?known = "?pv = Num 0 \<or> (?pv \<noteq> NaN \<and> (\<exists>m\<in>set (migrations E). version m = ?pv))"
  let ?x = "CantFindVersion (if rerun \<or> ?known then n else ?pv)"
  have miss: "findIndexByVersion E n = Inl (CantFindVersion n)"
    using a by (intro findIndexByVersion_missing) auto
  have ap: "apply_phase E ?pv n rerun (after_lock w) = ((Some ?x, 0), after_lock w)"
  proof (cases "rerun \<or> ?known")
    case True
    then have "rerun \<or> (\<exists>s. findIndexByVersion E ?pv = Inr s)"
      using findIndexByVersion_cases [of ?pv E] by blast
    then show ?thesis
      using apply_phase_missing_target [OF miss] True by simp
  next
    case False
    then have "findIndexByVersion E ?pv = Inl (CantFindVersion ?pv)"
      using findIndexByVersion_cases [of ?pv E] by blast
    moreover have "\<not> rerun" using False by simp
    ultimately have "apply_phase E ?pv n rerun (after_lock w) =
        ((Some (CantFindVersion ?pv), 0), after_lock w)"
      by (intro apply_phase_missing_current)
    then show ?thesis using False by (simp only: if_False)
  qed
  have "priv_migrateTo E n rerun w =
     (Inr \<lparr>success = (Some ?x = None), fromVersion = ?pv,
           toVersion = n, migrationsRun = 0, error = map_option as_Error (Some ?x)\<rparr>,
      after_unlock (after_lock w))"
    using b c ap by (intro priv_migrateTo_run) auto
  moreover have "after_unlock (after_lock w) = finished w [] ?pv"
    by (simp add: after_unlock_def after_lock_def finished_def persisted_version_def)
  ultimately show "priv_migrateTo E n rerun w =
              (Inr \<lparr>success = False, fromVersion = ?pv, toVersion = n,
                    migrationsRun = 0, error = Some ?x\<rparr>,
               finished w [] ?pv)"
    by (simp add: as_Error_def)
qed

text \<open>
  C6, witness: the target \<open>9\<close> is missing from a registry that holds version \<open>1\<close>
  twice; the persisted version is \<open>1\<close> (registered), \<open>7\<close> (not registered) and
  \<open>9\<close> (the target).
\<close>

theorem lookup_of_target_witness:
  "findIndexByVersion (engine_of [migration_of 1 Resolves None, migration_of 1 Resolves None,
       migration_of 2 Resolves None]) (Num 0) = Inr (- 1) \<and>
   priv_migrateTo (engine_of [migration_of 1 Resolves None, migration_of 1 Resolves None,
       migration_of 2 Resolves None]) (Num 9) False
     (world_of (Some (control_doc 1 False)) []) =
   (Inr \<lparr>success = False, fromVersion = Num 1, toVersion = Num 9, migrationsRun = 0,
         error = Some (CantFindVersion (Num 9))\<rparr>,
    \<lparr>collection = Some \<lparr>control_version = Num 1, locked = False, lockedAt = Some 0\<rparr>,
     faults = [], trace = [EvFindOne, EvLock, EvUnlock], now = 0\<rparr>) \<and>
   priv_migrateTo (engine_of [migration_of 1 Resolves None, migration_of 1 Resolves None,
       migration_of 2 Resolves None]) (Num 9) False
     (world_of (Some (control_doc 7 False)) []) =
   (Inr \<lparr>success = False, fromVersion = Num 7, toVersion = Num 9, migrationsRun = 0,
         error = Some (CantFindVersion (Num 7))\<rparr>,
    \<lparr>collection = Some \<lparr>control_version = Num 7, locked = False, lockedAt = Some 0\<rparr>,
     faults = [], trace = [EvFindOne, EvLock, EvUnlock], now = 0\<rparr>) \<and>
   priv_migrateTo (engine_of [migration_of 1 Resolves None, migration_of 1 Resolves None,
       migration_of 2 Resolves None]) (Num 9) False
     (world_of (Some (control_doc 9 False)) []) =
   (Inr \<lparr>success = True, fromVersion = Num 9, toVersion = Num 9, migrationsRun = 0,
         error = None\<rparr>,
    \<lparr>collection = Some (control_doc 9 False), faults = [], trace = [EvFindOne], now = 0\<rparr>)"
  using lookup_of_target
    [of "engine_of [migration_of 1 Resolves None, migration_of 1 Resolves None,
       migration_of 2 Resolves None]" "Num 9" "world_of (Some (control_doc 1 False)) []" False]
   lookup_of_target
    [of "engine_of [migration_of 1 Resolves None, migration_of 1 Resolves None,
       migration_of 2 Resolves None]" "Num 9" "world_of (Some (control_doc 7 False)) []" False]
   lookup_of_target
    [of "engine_of [migration_of 1 Resolves None, migration_of 1 Resolves None,
       migration_of 2 Resolves None]" "Num 9" "world_of (Some (control_doc 9 False)) []" False]
  by (simp add: example_defs strict_equal_def)

text \<open>
  C6, counterexample: version \<open>5\<close> is persisted and not registered; \<open>migrateTo('5')\<close>
  returns a successful result.
\<close>

theorem unregistered_target_counterexample:
  "findIndexByVersion (engine_of [migration_of 1 Resolves None]) (Num 5) =
     Inl (CantFindVersion (Num 5)) \<and>
   migrateTo (engine_of [migration_of 1 Resolves None]) (CmdString ''5'')
     (world_of (Some (control_doc 5 False)) []) =
   (Returned \<lparr>success = True, fromVersion = Num 5, toVersion = Num 5, migrationsRun = 0,
              error = None\<rparr>,
    \<lparr>collection = Some (control_doc 5 False), faults = [], trace = [EvFindOne], now = 0\<rparr>)"
  by (simp add: migrateTo_def parseCommand_def parseInt_def to_double_def trim_def is_space_def is_digit_def
      digit_value_def run_defs example_defs)

section \<open>The forward walk over a registry of distinct versions\<close>

lemma filter_upto_range:
  fixes a b l u :: int
  assumes "l \<le> a + 1" "b \<le> u"
  shows "filter (\<lambda>j. a < j \<and> j \<le> b) [l..u] = [a + 1..b]"
proof (cases "a + 1 \<le> b")
  case False
  then have "filter (\<lambda>j. a < j \<and> j \<le> b) [l..u] = []"
    by (auto simp: filter_empty_conv)
  then show ?thesis using False by simp
next
  case True
  have s1: "[l..u] = [l..a] @ [a + 1..u]"
    using upto_split1 [of l "a + 1" u] assms True by simp
  have s2: "[a + 1..u] = [a + 1..b] @ [b + 1..u]"
    using upto_split2 [of "a + 1" b u] assms True by simp
  have f1: "filter (\<lambda>j. a < j \<and> j \<le> b) [l..a] = []"
    by (auto simp: filter_empty_conv)
  have f2: "filter (\<lambda>j. a < j \<and> j \<le> b) [a + 1..b] = [a + 1..b]"
    by (auto simp: filter_id_conv)
  have f3: "filter (\<lambda>j. a < j \<and> j \<le> b) [b + 1..u] = []"
    by (auto simp: filter_empty_conv)
  show ?thesis unfolding s1 s2 filter_append f1 f2 f3 by simp
qed

lemma map_nth_upto: "map (\<lambda>j. xs ! nat j) [0..int (length xs) - 1] = xs"
proof (induction xs rule: rev_induct)
  case Nil
  then show ?case by simp
next
  case (snoc x xs)
  have u: "[0..int (length (xs @ [x])) - 1] = [0..int (length xs) - 1] @ [int (length xs)]"
    using upto_rec2 [of 0 "int (length xs)"] by simp
  have "map (\<lambda>j. (xs @ [x]) ! nat j) [0..int (length xs) - 1] =
        map (\<lambda>j. xs ! nat j) [0..int (length xs) - 1]"
    by (rule map_cong) (auto simp: nth_append)
  then show ?case unfolding u using snoc by simp
qed

lemma strict_versions:
  assumes "sorted (map version ms)" "distinct (map version ms)"
    "i < j" "j < length ms"
  shows "version (ms ! i) < version (ms ! j)"
proof -
  have "sorted_wrt (<) (map version ms)"
    using assms(1,2) by (simp add: strict_sorted_iff)
  then have "map version ms ! i < map version ms ! j"
    using assms(3,4) by (simp add: sorted_wrt_iff_nth_less del: nth_map)
  then show ?thesis using assms(3,4) by simp
qed

lemma registry_ok_facts:
  assumes "registry_ok E"
  shows "sorted (map version (migrations E))"
    "m \<in> set (migrations E) \<Longrightarrow> number_less (Num 0) (version m)"
    "m \<in> set (migrations E) \<Longrightarrow> version m \<noteq> NaN"
    "m \<in> set (migrations E) \<Longrightarrow> Num 0 < version m"
    "m \<in> set (migrations E) \<Longrightarrow> version m \<noteq> Num 0"
proof -
  show "sorted (map version (migrations E))" using assms by (simp add: registry_ok_def)
  show p: "m \<in> set (migrations E) \<Longrightarrow> number_less (Num 0) (version m)"
    using assms by (simp add: registry_ok_def list_all_iff)
  show n: "m \<in> set (migrations E) \<Longrightarrow> version m \<noteq> NaN"
    using p number_less_not_NaN by blast
  show l: "m \<in> set (migrations E) \<Longrightarrow> Num 0 < version m"
    using p n by (simp add: less_number_def)
  show "m \<in> set (migrations E) \<Longrightarrow> version m \<noteq> Num 0"
    using l by auto
qed

lemma slice_between:
  assumes ok: "registry_ok E"
    and dst: "distinct (map version (migrations E))"
    and fs: "findIndexByVersion E cur = Inr s"
    and fe: "findIndexByVersion E v = Inr e"
    and lt: "number_less cur v"
  shows "map (\<lambda>j. migrations E ! nat j) [s + 1..e] = between cur v (migrations E)"
proof -
  let ?ms = "migrations E"
  let ?n = "int (length ?ms)"
  note s = findIndexByVersion_Inr [OF fs]
  note e = findIndexByVersion_Inr [OF fe]
  note srt = registry_ok_facts(1) [OF ok]
  have nn: "cur \<noteq> NaN" "v \<noteq> NaN" using number_less_not_NaN [OF lt] by simp_all
  have lt': "cur < v" using lt nn by (simp add: number_less_iff)
  have vn: "version (?ms ! nat j) \<noteq> NaN" if "0 \<le> j" "j < ?n" for j
    using that by (intro registry_ok_facts(3) [OF ok]) simp
  have pos: "Num 0 < version (?ms ! nat j)" if "0 \<le> j" "j < ?n" for j
    using that by (intro registry_ok_facts(4) [OF ok]) simp
  have e0: "0 \<le> e"
  proof (rule ccontr)
    assume "\<not> 0 \<le> e"
    then have "e = - 1" using e(1) by simp
    then have v0: "v = Num 0" by (rule e(3))
    then have c0: "cur < Num 0" using lt' by simp
    then have "s \<noteq> - 1" using s(3) by auto
    then have s0: "0 \<le> s" using s(1) by simp
    then have "version (?ms ! nat s) = cur" by (rule s(4))
    then have "Num 0 < cur" using pos [OF s0 s(2)] by simp
    then show False using c0 by simp
  qed
  have ve: "version (?ms ! nat e) = v" using e0 by (rule e(4))
  have A: "number_less cur (version (?ms ! nat j)) \<longleftrightarrow> s < j" if j: "0 \<le> j" "j < ?n" for j
  proof -
    have "cur < version (?ms ! nat j) \<longleftrightarrow> s < j"
    proof (cases "s = - 1")
      case True
      then have "cur = Num 0" by (rule s(3))
      then show ?thesis using pos [OF j] True j by auto
    next
      case False
      then have s0: "0 \<le> s" using s(1) by simp
      have vs: "version (?ms ! nat s) = cur" using s0 by (rule s(4))
      show ?thesis
      proof (cases "s < j")
        case True
        then have "version (?ms ! nat s) < version (?ms ! nat j)"
          using s0 j by (intro strict_versions [OF srt dst]) auto
        then show ?thesis using vs True by simp
      next
        case nlt: False
        show ?thesis
        proof (cases "j = s")
          case True
          then show ?thesis using vs by simp
        next
          case False
          then have "version (?ms ! nat j) < version (?ms ! nat s)"
            using nlt s0 j s(2) by (intro strict_versions [OF srt dst]) auto
          then show ?thesis using vs nlt by simp
        qed
      qed
    qed
    then show ?thesis using nn vn [OF j] by (simp add: number_less_iff)
  qed
  have B: "number_le (version (?ms ! nat j)) v \<longleftrightarrow> j \<le> e" if j: "0 \<le> j" "j < ?n" for j
  proof -
    have "version (?ms ! nat j) \<le> v \<longleftrightarrow> j \<le> e"
    proof (cases "j \<le> e")
      case True
      show ?thesis
      proof (cases "j = e")
        case True
        then show ?thesis using ve by simp
      next
        case False
        then have "version (?ms ! nat j) < version (?ms ! nat e)"
          using True e0 j e(2) by (intro strict_versions [OF srt dst]) auto
        then show ?thesis using ve True by simp
      qed
    next
      case False
      then have "version (?ms ! nat e) < version (?ms ! nat j)"
        using e0 j by (intro strict_versions [OF srt dst]) auto
      then show ?thesis using ve False by simp
    qed
    then show ?thesis using nn vn [OF j] by (simp add: number_le_iff)
  qed
  have "between cur v ?ms =
      filter (\<lambda>m. number_less cur (version m) \<and> number_le (version m) v)
        (map (\<lambda>j. ?ms ! nat j) [0..?n - 1])"
    by (simp add: between_def map_nth_upto)
  also have "\<dots> = map (\<lambda>j. ?ms ! nat j)
      (filter (\<lambda>j. number_less cur (version (?ms ! nat j)) \<and>
                    number_le (version (?ms ! nat j)) v) [0..?n - 1])"
    by (simp add: filter_map comp_def)
  also have "filter (\<lambda>j. number_less cur (version (?ms ! nat j)) \<and>
                    number_le (version (?ms ! nat j)) v) [0..?n - 1] =
      filter (\<lambda>j. s < j \<and> j \<le> e) [0..?n - 1]"
    by (rule filter_cong) (auto simp: A B)
  also have "\<dots> = [s + 1..e]"
    using s(1) e(2) by (intro filter_upto_range) auto
  finally show ?thesis by simp
qed

lemma registered_lookup:
  assumes "registry_ok E" "v = Num 0 \<or> (\<exists>m\<in>set (migrations E). version m = v)"
  shows "\<exists>i. findIndexByVersion E v = Inr i"
proof (cases "v = Num 0")
  case True
  then show ?thesis using findIndexByVersion_zero by auto
next
  case False
  then have ex: "\<exists>m\<in>set (migrations E). version m = v" using assms(2) by auto
  then have "v \<noteq> NaN" using registry_ok_facts(3) [OF assms(1)] by blast
  then show ?thesis using findIndexByVersion_present [OF False _ ex] by blast
qed

lemma forward_walk_versions:
  assumes "dbConnection E" "faults w = []" "\<not> locked (control_of w)"
    "registry_ok E" "distinct (map version (migrations E))"
    "persisted_version w = Num 0 \<or>
     (\<exists>m\<in>set (migrations E). version m = persisted_version w)"
    "\<exists>m\<in>set (migrations E). version m = v"
    "number_less (persisted_version w) v"
    "\<forall>m\<in>set (between (persisted_version w) v (migrations E)). up m = Some Resolves"
  shows "priv_migrateTo E v False w =
     (Inr \<lparr>success = True, fromVersion = persisted_version w, toVersion = v,
           migrationsRun = length (between (persisted_version w) v (migrations E)),
           error = None\<rparr>,
      finished w (concat (map up_step (between (persisted_version w) v (migrations E)))) v)"
proof -
  let ?ms = "migrations E"
  let ?cur = "persisted_version w"
  obtain s where fs: "findIndexByVersion E ?cur = Inr s"
    using registered_lookup [OF assms(4,6)] by blast
  obtain e where fe: "findIndexByVersion E v = Inr e"
    using registered_lookup [OF assms(4), of v] assms(7) by blast
  have slice: "map (\<lambda>j. ?ms ! nat j) [s + 1..e] = between ?cur v ?ms"
    using assms(4,5) fs fe assms(8) by (rule slice_between)
  obtain m where m: "m \<in> set ?ms" "version m = v" using assms(7) by blast
  have "v \<noteq> NaN" using number_less_not_NaN [OF assms(8)] by simp
  then have "number_le v v" by (simp add: number_le_def strict_equal_def)
  then have "m \<in> set (between ?cur v ?ms)" using m assms(8) by (simp add: between_def)
  then have "[s + 1..e] \<noteq> []" using slice by (metis empty_iff list.map_disc_iff list.set(1))
  then have se: "s < e" by (simp add: upto.simps split: if_splits)
  have ups: "\<forall>j. s < j \<and> j \<le> e \<longrightarrow> up (?ms ! nat j) = Some Resolves"
  proof (intro allI impI)
    fix j assume "s < j \<and> j \<le> e"
    then have "j \<in> set [s + 1..e]" by simp
    then have "?ms ! nat j \<in> set (map (\<lambda>j. ?ms ! nat j) [s + 1..e])"
      unfolding set_map by (rule imageI)
    then show "up (?ms ! nat j) = Some Resolves" using slice assms(9) by simp
  qed
  have ev: "concat (map (up_events E) [s + 1..e]) = concat (map up_step (between ?cur v ?ms))"
  proof -
    have "map (up_events E) [s + 1..e] = map up_step (map (\<lambda>j. ?ms ! nat j) [s + 1..e])"
      by (simp add: up_events_def up_step_def comp_def)
    then show ?thesis using slice by simp
  qed
  have len: "nat (e - s) = length (between ?cur v ?ms)"
  proof -
    have "length (between ?cur v ?ms) = length [s + 1..e]"
      using arg_cong [OF slice, of length] by simp
    then show ?thesis by simp
  qed
  show ?thesis
    using run_forward_ok [OF assms(1-3) fs fe assms(8) ups] se ev len by simp
qed

text \<open>
  C3 (as amended). With a connection, a driver that accepts every call and an unlocked
  control document: on a registry that is sorted, holds versions greater than \<open>0\<close> and
  no version twice, a run that is not a rerun, from a persisted version that is \<open>0\<close> or
  registered to a greater registered version, in which every \<open>up\<close> of the range succeeds,
  applies exactly the registered migrations with a version greater than the persisted one
  and at most the target, in the order of the registry, which is ascending by version. For
  each it invokes \<open>up\<close> and then persists the version of that migration; the result
  counts them all, and the target version is persisted when the lock is released.
\<close>

theorem forward_run:
  assumes "dbConnection E" "faults w = []" "\<not> locked (control_of w)"
    "registry_ok E" "distinct (map version (migrations E))"
    "persisted_version w = Num 0 \<or>
     (\<exists>m\<in>set (migrations E). version m = persisted_version w)"
    "\<exists>m\<in>set (migrations E). version m = v"
    "number_less (persisted_version w) v"
    "\<forall>m\<in>set (between (persisted_version w) v (migrations E)). up m = Some Resolves"
  shows "priv_migrateTo E v False w =
     (Inr \<lparr>success = True, fromVersion = persisted_version w, toVersion = v,
           migrationsRun = length (between (persisted_version w) v (migrations E)),
           error = None\<rparr>,
      finished w (concat (map up_step (between (persisted_version w) v (migrations E)))) v) \<and>
     sorted (map version (between (persisted_version w) v (migrations E)))"
proof
  show "priv_migrateTo E v False w =
     (Inr \<lparr>success = True, fromVersion = persisted_version w, toVersion = v,
           migrationsRun = length (between (persisted_version w) v (migrations E)),
           error = None\<rparr>,
      finished w (concat (map up_step (between (persisted_version w) v (migrations E)))) v)"
    using assms by (rule forward_walk_versions)
  have "sorted (map version (migrations E))"
    using assms(4) by (simp add: registry_ok_def)
  then show "sorted (map version (between (persisted_version w) v (migrations E)))"
    unfolding between_def by (rule sorted_filter)
qed

text \<open>
  C3, witness: from version \<open>1\<close> to version \<open>3\<close> of four; the \<open>up\<close> of version
  \<open>4\<close>, outside the range, would throw.
\<close>

theorem forward_run_witness:
  "priv_migrateTo
     (engine_of [migration_of 1 Resolves None, migration_of 2 Resolves None,
                 migration_of 3 Resolves None, migration_of 4 (Throws (UserError ''no'')) None])
     (Num 3) False (world_of (Some (control_doc 1 False)) []) =
   (Inr \<lparr>success = True, fromVersion = Num 1, toVersion = Num 3, migrationsRun = 2,
         error = None\<rparr>,
    \<lparr>collection = Some \<lparr>control_version = Num 3, locked = False, lockedAt = Some 0\<rparr>,
     faults = [],
     trace = [EvFindOne, EvLock,
              EvRun Up (migration_of 2 Resolves None), EvUpdateVersion (Num 2),
              EvRun Up (migration_of 3 Resolves None), EvUpdateVersion (Num 3),
              EvUnlock],
     now = 0\<rparr>)"
  using forward_run
    [of "engine_of [migration_of 1 Resolves None, migration_of 2 Resolves None,
                 migration_of 3 Resolves None, migration_of 4 (Throws (UserError ''no'')) None]"
        "world_of (Some (control_doc 1 False)) []" "Num 3"]
  by (simp add: example_defs registry_ok_def between_def up_step_def number_le_def
      strict_equal_def less_eq_number_def)

text \<open>
  C3, counterexample: \<open>add\<close> stores two migrations of version \<open>1\<close>; both have a
  version greater than \<open>0\<close> and at most \<open>1\<close>, and the run from \<open>0\<close> to \<open>1\<close>
  applies the first one only.
\<close>

theorem duplicate_skipped_counterexample:
  "migrations
     (snd (add (snd (add (engine_of [])
        \<lparr>arg_version = Some (Num 1), arg_name = None, arg_up = Some Resolves,
         arg_down = None\<rparr>))
        \<lparr>arg_version = Some (Num 1), arg_name = None, arg_up = Some Resolves,
         arg_down = Some Resolves\<rparr>)) =
     [migration_of 1 Resolves None, migration_of 1 Resolves (Some Resolves)] \<and>
   between (Num 0) (Num 1)
     [migration_of 1 Resolves None, migration_of 1 Resolves (Some Resolves)] =
     [migration_of 1 Resolves None, migration_of 1 Resolves (Some Resolves)] \<and>
   priv_migrateTo
     (engine_of [migration_of 1 Resolves None, migration_of 1 Resolves (Some Resolves)])
     (Num 1) False (world_of (Some (control_doc 0 False)) []) =
   (Inr \<lparr>success = True, fromVersion = Num 0, toVersion = Num 1, migrationsRun = 1,
         error = None\<rparr>,
    \<lparr>collection = Some \<lparr>control_version = Num 1, locked = False, lockedAt = Some 0\<rparr>,
     faults = [],
     trace = [EvFindOne, EvLock, EvRun Up (migration_of 1 Resolves None),
              EvUpdateVersion (Num 1), EvUnlock],
     now = 0\<rparr>)"
  by (simp add: add_def between_def run_defs example_defs number_le_def sort_by_version_def
      sort_compare_def)

section \<open>The way to the latest version and back\<close>

lemma invoked_append: "invoked d (xs @ ys) = invoked d xs @ invoked d ys"
  by (induction d xs rule: invoked.induct) simp_all

lemma invoked_read_events: "invoked d (read_events w) = []"
  by (simp add: read_events_def)

lemma invoked_up_steps:
  "invoked d (concat (map up_step xs)) = (if d = Up then xs else [])"
  by (induction xs) (auto simp: up_step_def)

lemma invoked_down_events:
  "invoked d (concat (map (down_events E) js)) =
     (if d = Down then map (\<lambda>j. migrations E ! nat j) js else [])"
  by (induction js) (auto simp: down_events_def)

lemma parse_latest:
  "parseCommand (CmdString ''latest'') = \<lparr>command_version = Latest, subcommand = None\<rparr>"
  by (simp add: parseCommand_def trim_def is_space_def element_at_def)

lemma parse_number:
  "parseCommand (CmdNumber n) = \<lparr>command_version = Version n, subcommand = None\<rparr>"
  by (simp add: parseCommand_def)

lemma migrateTo_latest:
  assumes "dbConnection E" "migrations E \<noteq> []"
  shows "migrateTo E (CmdString ''latest'') w =
     (case priv_migrateTo E (version (last (migrations E))) False w of
        (Inl e, w1) \<Rightarrow> (Thrown e, w1)
      | (Inr result, w1) \<Rightarrow> (Returned result, w1))"
proof -
  have "nat (int (length (migrations E)) - 1) = length (migrations E) - 1" by arith
  then show ?thesis
    using assms
    by (auto simp: migrateTo_def parse_latest element_at_def last_conv_nth
        split: prod.splits sum.splits)
qed

lemma migrateTo_number:
  assumes "dbConnection E" "migrations E \<noteq> []"
  shows "migrateTo E (CmdNumber n) w =
     (case priv_migrateTo E n False w of
        (Inl e, w1) \<Rightarrow> (Thrown e, w1)
      | (Inr result, w1) \<Rightarrow> (Returned result, w1))"
  using assms by (auto simp: migrateTo_def parseCommand_def split: prod.splits sum.splits)

lemma whole_registry:
  assumes "registry_ok E" "migrations E \<noteq> []"
  shows "between (Num 0) (version (last (migrations E))) (migrations E) = migrations E"
proof -
  let ?ms = "migrations E"
  let ?n = "length ?ms"
  let ?vl = "version (last ?ms)"
  note srt = registry_ok_facts(1) [OF assms(1)]
  have last_in: "last ?ms \<in> set ?ms" using assms(2) by simp
  have le_last: "number_le (version m) ?vl" if "m \<in> set ?ms" for m
  proof -
    from that have "\<exists>i<?n. ?ms ! i = m" by (simp add: in_set_conv_nth)
    then obtain i where i: "i < ?n" "?ms ! i = m" by blast
    have "map version ?ms ! i \<le> map version ?ms ! (?n - 1)"
      using srt i(1) by (intro sorted_nth_mono) auto
    then have "version m \<le> ?vl" using i assms(2) by (simp add: last_conv_nth)
    then show ?thesis
      using registry_ok_facts(3) [OF assms(1) that] registry_ok_facts(3) [OF assms(1) last_in]
      by (simp add: number_le_iff)
  qed
  show ?thesis
    using registry_ok_facts(2) [OF assms(1)] le_last by (simp add: between_def filter_id_conv)
qed

text \<open>
  C9 (as amended). With a connection, a driver that accepts every call, an unlocked control
  document at version \<open>0\<close>, and a non-empty registry that is sorted, holds versions
  greater than \<open>0\<close> and no version twice, and whose \<open>up\<close> and \<open>down\<close> actions all
  exist and succeed: \<open>migrateTo('latest')\<close> followed by \<open>migrateTo(0)\<close> returns two
  successful results, each counting every migration; the first call invokes the \<open>up\<close>
  of every migration once, in the order of the registry, the second the \<open>down\<close> of every
  migration once, in the reverse order; version \<open>0\<close> is persisted and the lock is
  released at the end.
\<close>

theorem round_trip:
  assumes "dbConnection E" "migrations E \<noteq> []" "registry_ok E"
    "distinct (map version (migrations E))"
    "\<forall>m\<in>set (migrations E). up m = Some Resolves \<and> down m = Some Resolves"
    "faults w = []" "persisted_version w = Num 0" "\<not> locked (control_of w)"
  shows "\<exists>r1 w1 r2 w2.
    migrateTo E (CmdString ''latest'') w = (Returned r1, w1) \<and>
    migrateTo E (CmdNumber (Num 0)) w1 = (Returned r2, w2) \<and>
    success r1 \<and> migrationsRun r1 = length (migrations E) \<and>
    success r2 \<and> migrationsRun r2 = length (migrations E) \<and>
    invoked Up (trace w2) = invoked Up (trace w) @ migrations E \<and>
    invoked Down (trace w2) = invoked Down (trace w) @ rev (migrations E) \<and>
    persisted_version w2 = Num 0 \<and> \<not> locked (control_of w2)"
proof -
  let ?ms = "migrations E"
  let ?n = "length ?ms"
  let ?vl = "version (last ?ms)"
  have last_in: "last ?ms \<in> set ?ms" using assms(2) by simp
  have vl_pos: "number_less (Num 0) ?vl" using registry_ok_facts(2) [OF assms(3) last_in] .
  have all: "between (Num 0) ?vl ?ms = ?ms" using assms(3,2) by (rule whole_registry)
  let ?U = "concat (map up_step ?ms)"
  let ?wa = "finished w ?U ?vl"
  have first: "priv_migrateTo E ?vl False w =
     (Inr \<lparr>success = True, fromVersion = persisted_version w, toVersion = ?vl,
           migrationsRun = length (between (persisted_version w) ?vl ?ms), error = None\<rparr>,
      finished w (concat (map up_step (between (persisted_version w) ?vl ?ms))) ?vl)"
  proof -
    have b_ups: "\<forall>m\<in>set (between (persisted_version w) ?vl ?ms). up m = Some Resolves"
      using assms(5) by (simp add: between_def)
    have reg: "\<exists>m\<in>set ?ms. version m = ?vl" using last_in by blast
    have p0: "persisted_version w = Num 0 \<or> (\<exists>m\<in>set ?ms. version m = persisted_version w)"
      using assms(7) by simp
    have lt: "number_less (persisted_version w) ?vl" using assms(7) vl_pos by simp
    show ?thesis
      by (rule forward_walk_versions [OF assms(1) assms(6) assms(8) assms(3) assms(4) p0 reg lt b_ups])
  qed
  let ?ra = "\<lparr>success = True, fromVersion = Num 0, toVersion = ?vl,
           migrationsRun = ?n, error = None\<rparr>"
  have leg1: "migrateTo E (CmdString ''latest'') w = (Returned ?ra, ?wa)"
    using first assms(7) all by (simp add: migrateTo_latest [OF assms(1,2)])
  have wa_faults: "faults ?wa = []" using assms(6) by (simp add: finished_def)
  have wa_ctl: "control_of ?wa =
      (control_of w)\<lparr>control_version := ?vl, locked := False, lockedAt := Some (now w)\<rparr>"
    by (simp add: finished_def control_of_def)
  have wa_ver: "persisted_version ?wa = ?vl" by (simp add: persisted_version_def wa_ctl)
  have wa_unlocked: "\<not> locked (control_of ?wa)" by (simp add: wa_ctl)
  obtain s where fs: "findIndexByVersion E ?vl = Inr s"
    using registered_lookup [OF assms(3), of ?vl] last_in by blast
  note sf = findIndexByVersion_Inr [OF fs]
  have "?vl \<noteq> Num 0" using registry_ok_facts(5) [OF assms(3) last_in] .
  then have s0: "0 \<le> s" using sf(1,3) by (cases "s = - 1") auto
  have "version (?ms ! nat s) = version (?ms ! (?n - 1))"
    using sf(4) [OF s0] assms(2) by (simp add: last_conv_nth)
  then have "map version ?ms ! nat s = map version ?ms ! (?n - 1)"
    using s0 sf(2) assms(2) by simp
  then have "nat s = ?n - 1"
    using assms(4) s0 sf(2) assms(2) by (simp add: nth_eq_iff_index_eq del: nth_map)
  moreover have "0 < ?n" using assms(2) by simp
  ultimately have s_eq: "s = int ?n - 1" using s0 by linarith
  have downs: "\<forall>j. - 1 < j \<and> j \<le> s \<longrightarrow> down (?ms ! nat j) = Some Resolves"
  proof (intro allI impI)
    fix j assume "- 1 < j \<and> j \<le> s"
    then have "nat j < length ?ms" using sf(2) by linarith
    then have "?ms ! nat j \<in> set ?ms" by (rule nth_mem)
    then show "down (?ms ! nat j) = Some Resolves" using assms(5) by blast
  qed
  let ?D = "concat (map (down_events E) (rev [0..s]))"
  let ?wb = "finished ?wa ?D (Num 0)"
  have second: "priv_migrateTo E (Num 0) False ?wa =
     (Inr \<lparr>success = True, fromVersion = persisted_version ?wa, toVersion = Num 0,
           migrationsRun = nat (s - (- 1)), error = None\<rparr>,
      finished ?wa (concat (map (down_events E) (rev [- 1 + 1..s])))
        (if - 1 < s then Num 0 else persisted_version ?wa))"
  proof -
    have fs': "findIndexByVersion E (persisted_version ?wa) = Inr s"
      using fs by (simp only: wa_ver)
    have lt: "number_less (Num 0) (persisted_version ?wa)" using vl_pos by (simp only: wa_ver)
    show ?thesis
      by (rule run_backward_ok [OF assms(1) wa_faults wa_unlocked fs' findIndexByVersion_zero lt downs])
  qed
  let ?rb = "\<lparr>success = True, fromVersion = ?vl, toVersion = Num 0,
           migrationsRun = ?n, error = None\<rparr>"
  have leg2: "migrateTo E (CmdNumber (Num 0)) ?wa = (Returned ?rb, ?wb)"
    using second s0 s_eq wa_ver by (simp add: migrateTo_number [OF assms(1,2)])
  have rev_ms: "map (\<lambda>j. ?ms ! nat j) (rev [0..s]) = rev ?ms"
    using map_nth_upto [of ?ms] s_eq by (simp add: rev_map [symmetric])
  have tr: "trace ?wb = trace w @ read_events w @ [EvLock] @ ?U @ [EvUnlock] @
      read_events ?wa @ [EvLock] @ ?D @ [EvUnlock]"
    by (simp add: finished_def)
  have iu: "invoked Up (trace ?wb) = invoked Up (trace w) @ ?ms"
    unfolding tr by (simp add: invoked_append invoked_read_events invoked_up_steps
        invoked_down_events)
  have idn: "invoked Down (trace ?wb) = invoked Down (trace w) @ rev ?ms"
    unfolding tr by (simp add: invoked_append invoked_read_events invoked_up_steps
        invoked_down_events rev_ms)
  have fin: "persisted_version ?wb = Num 0" "\<not> locked (control_of ?wb)"
    by (simp_all add: finished_def control_of_def persisted_version_def)
  show ?thesis
    using leg1 leg2 iu idn fin
    by (intro exI [of _ ?ra] exI [of _ ?wa] exI [of _ ?rb] exI [of _ ?wb]) simp
qed

text \<open>
  C9, witness: versions \<open>1\<close> and \<open>2\<close>, and no control document at the start.
\<close>

theorem round_trip_witness:
  "\<exists>r1 w1 r2 w2.
    migrateTo (engine_of [migration_of 1 Resolves (Some Resolves),
                          migration_of 2 Resolves (Some Resolves)])
      (CmdString ''latest'') (world_of None []) = (Returned r1, w1) \<and>
    migrateTo (engine_of [migration_of 1 Resolves (Some Resolves),
                          migration_of 2 Resolves (Some Resolves)])
      (CmdNumber (Num 0)) w1 = (Returned r2, w2) \<and>
    success r1 \<and> migrationsRun r1 = 2 \<and> success r2 \<and> migrationsRun r2 = 2 \<and>
    invoked Up (trace w2) =
      [migration_of 1 Resolves (Some Resolves), migration_of 2 Resolves (Some Resolves)] \<and>
    invoked Down (trace w2) =
      [migration_of 2 Resolves (Some Resolves), migration_of 1 Resolves (Some Resolves)] \<and>
    persisted_version w2 = Num 0 \<and> \<not> locked (control_of w2)"
  using round_trip
    [of "engine_of [migration_of 1 Resolves (Some Resolves),
                    migration_of 2 Resolves (Some Resolves)]" "world_of None []"]
  by (simp add: example_defs registry_ok_def less_eq_number_def numeral_2_eq_2)

text \<open>
  C9, counterexample: \<open>add\<close> stores two migrations of version \<open>1\<close>, both with a
  \<open>down\<close>; the way to \<open>latest\<close> and back to \<open>0\<close> invokes the \<open>up\<close> and the
  \<open>down\<close> of the first one only, and the \<open>down\<close> of the second is not invoked.
\<close>

theorem duplicate_not_reverted_counterexample:
  "migrations
     (snd (add (snd (add (engine_of [])
        \<lparr>arg_version = Some (Num 1), arg_name = Some ''a'', arg_up = Some Resolves,
         arg_down = Some Resolves\<rparr>))
        \<lparr>arg_version = Some (Num 1), arg_name = Some ''b'', arg_up = Some Resolves,
         arg_down = Some Resolves\<rparr>)) =
     [\<lparr>version = Num 1, name = Some ''a'', up = Some Resolves, down = Some Resolves\<rparr>,
      \<lparr>version = Num 1, name = Some ''b'', up = Some Resolves, down = Some Resolves\<rparr>] \<and>
   migrateTo
     (engine_of
       [\<lparr>version = Num 1, name = Some ''a'', up = Some Resolves, down = Some Resolves\<rparr>,
        \<lparr>version = Num 1, name = Some ''b'', up = Some Resolves, down = Some Resolves\<rparr>])
     (CmdString ''latest'') (world_of None []) =
   (Returned \<lparr>success = True, fromVersion = Num 0, toVersion = Num 1, migrationsRun = 1,
              error = None\<rparr>,
    \<lparr>collection = Some \<lparr>control_version = Num 1, locked = False, lockedAt = Some 0\<rparr>,
     faults = [],
     trace = [EvFindOne, EvSetControl, EvLock,
              EvRun Up \<lparr>version = Num 1, name = Some ''a'', up = Some Resolves,
                        down = Some Resolves\<rparr>,
              EvUpdateVersion (Num 1), EvUnlock],
     now = 0\<rparr>) \<and>
   migrateTo
     (engine_of
       [\<lparr>version = Num 1, name = Some ''a'', up = Some Resolves, down = Some Resolves\<rparr>,
        \<lparr>version = Num 1, name = Some ''b'', up = Some Resolves, down = Some Resolves\<rparr>])
     (CmdNumber (Num 0))
     \<lparr>collection = Some \<lparr>control_version = Num 1, locked = False, lockedAt = Some 0\<rparr>,
      faults = [],
      trace = [EvFindOne, EvSetControl, EvLock,
              EvRun Up \<lparr>version = Num 1, name = Some ''a'', up = Some Resolves,
                        down = Some Resolves\<rparr>,
              EvUpdateVersion (Num 1), EvUnlock],
      now = 0\<rparr> =
   (Returned \<lparr>success = True, fromVersion = Num 1, toVersion = Num 0, migrationsRun = 1,
              error = None\<rparr>,
    \<lparr>collection = Some \<lparr>control_version = Num 0, locked = False, lockedAt = Some 0\<rparr>,
     faults = [],
     trace = [EvFindOne, EvSetControl, EvLock,
              EvRun Up \<lparr>version = Num 1, name = Some ''a'', up = Some Resolves,
                        down = Some Resolves\<rparr>,
              EvUpdateVersion (Num 1), EvUnlock,
              EvFindOne, EvLock,
              EvRun Down \<lparr>version = Num 1, name = Some ''a'', up = Some Resolves,
                          down = Some Resolves\<rparr>,
              EvUpdateVersion (Num 0), EvUnlock],
     now = 0\<rparr>)"
  by (simp add: add_def number_le_def sort_by_version_def sort_compare_def
      migrateTo_def parse_latest parse_number run_defs example_defs)

section \<open>The target that is already reached\<close>

lemma step_failure_cases:
  "(case dir of Up \<Rightarrow> up m | Down \<Rightarrow> down m) \<noteq> Some Resolves \<Longrightarrow>
   \<exists>x evs. step_failure dir m = Some (x, evs)"
  by (auto simp: step_failure_def split: option.splits action.splits)

lemma up_loop_success:
  assumes "dbConnection E" "e < int (length (migrations E))"
  shows "faults w = [] \<Longrightarrow> 0 \<le> i \<Longrightarrow> up_loop E i e n w = ((None, n'), w') \<Longrightarrow>
     faults w' = [] \<and> n' = n + nat (e + 1 - i) \<and>
     collection w' =
       (if i \<le> e then set_version (version (migrations E ! nat e)) (collection w)
        else collection w)"
proof (induction "nat (e + 1 - i)" arbitrary: i n w)
  case 0
  then have "e < i" by simp
  then show ?case using 0 by (simp add: up_loop_done)
next
  case (Suc d)
  then have le: "i \<le> e" by simp
  have il: "i < int (length (migrations E))" using le assms(2) by simp
  let ?m = "migrations E ! nat i"
  have res: "up ?m = Some Resolves"
  proof (rule ccontr)
    assume "up ?m \<noteq> Some Resolves"
    then obtain x evs where "step_failure Up ?m = Some (x, evs)"
      using step_failure_cases [where dir = Up and m = ?m] by auto
    then have "up_loop E i e n w = ((Some x, n), w\<lparr>trace := trace w @ evs\<rparr>)"
      using le Suc.prems(2) il by (intro up_loop_throw) auto
    then show False using Suc.prems(3) by simp
  qed
  let ?wb = "w\<lparr>trace := trace w @ up_events E i,
          collection := set_version (version ?m) (collection w)\<rparr>"
  have step: "up_loop E i e n w = up_loop E (i + 1) e (n + 1) ?wb"
    using assms(1) Suc.prems(1,2) le il res by (rule up_loop_step)
  have IH: "faults w' = [] \<and> n' = (n + 1) + nat (e + 1 - (i + 1)) \<and>
     collection w' =
       (if i + 1 \<le> e then set_version (version (migrations E ! nat e)) (collection ?wb)
        else collection ?wb)"
    using Suc.hyps(2) Suc.prems step by (intro Suc.hyps(1)) auto
  show ?case
  proof (cases "i + 1 \<le> e")
    case True
    then show ?thesis using IH le by simp
  next
    case False
    then have "i = e" using le by simp
    then show ?thesis using IH by simp
  qed
qed

lemma down_loop_success:
  assumes "dbConnection E" "- 1 \<le> t"
  shows "faults w = [] \<Longrightarrow> i < int (length (migrations E)) \<Longrightarrow>
     down_loop E i t n w = ((None, n'), w') \<Longrightarrow>
     faults w' = [] \<and> n' = n + nat (i - t) \<and>
     collection w' =
       (if t < i then set_version (version_before E (t + 1)) (collection w)
        else collection w)"
proof (induction "nat (i - t)" arbitrary: i n w)
  case 0
  then have "i \<le> t" by simp
  then show ?case using 0 by (simp add: down_loop_done)
next
  case (Suc d)
  then have lt: "t < i" by simp
  have i0: "0 \<le> i" using lt assms(2) by simp
  let ?m = "migrations E ! nat i"
  have res: "down ?m = Some Resolves"
  proof (rule ccontr)
    assume "down ?m \<noteq> Some Resolves"
    then obtain x evs where "step_failure Down ?m = Some (x, evs)"
      using step_failure_cases [where dir = Down and m = ?m] by auto
    then have "down_loop E i t n w = ((Some x, n), w\<lparr>trace := trace w @ evs\<rparr>)"
      using lt i0 Suc.prems(2) by (intro down_loop_throw) auto
    then show False using Suc.prems(3) by simp
  qed
  let ?wb = "w\<lparr>trace := trace w @ down_events E i,
          collection := set_version (version_before E i) (collection w)\<rparr>"
  have step: "down_loop E i t n w = down_loop E (i - 1) t (n + 1) ?wb"
    using assms(1) Suc.prems(1) i0 lt Suc.prems(2) res by (rule down_loop_step)
  have IH: "faults w' = [] \<and> n' = (n + 1) + nat ((i - 1) - t) \<and>
     collection w' =
       (if t < i - 1 then set_version (version_before E (t + 1)) (collection ?wb)
        else collection ?wb)"
    using Suc.hyps(2) Suc.prems step by (intro Suc.hyps(1)) auto
  show ?case
  proof (cases "t < i - 1")
    case True
    then show ?thesis using IH lt by simp
  next
    case False
    then have "i = t + 1" using lt by simp
    then show ?thesis using IH by simp
  qed
qed

lemma index_order:
  assumes "registry_ok E" "findIndexByVersion E a = Inr s" "findIndexByVersion E b = Inr e"
    "number_less a b"
  shows "s < e"
proof -
  let ?ms = "migrations E"
  note s = findIndexByVersion_Inr [OF assms(2)]
  note e = findIndexByVersion_Inr [OF assms(3)]
  have nn: "a \<noteq> NaN" "b \<noteq> NaN" using number_less_not_NaN [OF assms(4)] by simp_all
  have lt: "a < b" using assms(4) nn by (simp add: number_less_iff)
  have pos: "Num 0 < version (?ms ! nat j)" if "0 \<le> j" "j < int (length ?ms)" for j
    using that by (intro registry_ok_facts(4) [OF assms(1)]) simp
  have a0: "Num 0 \<le> a"
  proof (cases "s = - 1")
    case True
    then show ?thesis using s(3) by simp
  next
    case False
    then have s0: "0 \<le> s" using s(1) by simp
    then show ?thesis using pos [OF s0 s(2)] s(4) [OF s0] by simp
  qed
  have e0: "0 \<le> e"
  proof (rule ccontr)
    assume "\<not> 0 \<le> e"
    then have "e = - 1" using e(1) by simp
    then have "b = Num 0" by (rule e(3))
    then show False using lt a0 by simp
  qed
  show ?thesis
  proof (rule ccontr)
    assume "\<not> s < e"
    then have es: "e \<le> s" by simp
    then have s0: "0 \<le> s" using e0 by simp
    have "map version ?ms ! nat e \<le> map version ?ms ! nat s"
      using registry_ok_facts(1) [OF assms(1)] es e0 s(2)
      by (intro sorted_nth_mono) auto
    then have "b \<le> a" using e(4) [OF e0] s(4) [OF s0] e0 s0 s(2) es by simp
    then show False using lt by simp
  qed
qed

lemma successful_run_reaches_target:
  assumes "dbConnection E" "faults w = []"
    "priv_migrateTo E v False w = (Inr r, w1)" "success r"
    "0 < migrationsRun r \<or> registry_ok E"
  shows "faults w1 = [] \<and> strict_equal (persisted_version w1) v \<and> collection w1 \<noteq> None"
proof (cases "strict_equal (persisted_version w) v")
  case True
  then have "w1 = after_read w"
    using priv_migrateTo_fast [OF assms(1,2) True] assms(3) by simp
  then show ?thesis
    using assms(2) True by (simp add: persisted_version_def control_of_def after_read_def)
next
  case False
  let ?pv = "persisted_version w"
  have unlocked: "\<not> locked (control_of w)"
  proof
    assume "locked (control_of w)"
    then have "\<not> success r"
      using priv_migrateTo_locked [OF assms(1,2), of False v] False assms(3) by auto
    then show False using assms(4) by simp
  qed
  have gc: "priv_getControl E w = (Inr (control_of w), after_read w)"
    using assms(1,2) by (rule getControl_ok)
  have ne: "False \<or> \<not> strict_equal (control_version (control_of w)) v"
    using False by (simp add: persisted_version_def)
  have lk: "lock E (after_read w) = (Inr True, after_lock w)"
    using assms(1,2) unlocked by (rule lock_free)
  note pm = priv_migrateTo_after_lock [OF assms(1) gc ne lk]
  obtain x n w2 where ap: "apply_phase E ?pv v False (after_lock w) = ((x, n), w2)"
    by (metis surj_pair)
  have x: "x = None"
  proof (rule ccontr)
    assume "x \<noteq> None"
    then obtain e where "x = Some e" by auto
    then have "try_block E ?pv v False (after_lock w) = ((Some e, n), w2)"
      using ap by (simp add: try_block_def)
    then have "\<not> success r"
      using pm assms(3) by (auto simp: persisted_version_def split: prod.splits sum.splits)
    then show False using assms(4) by simp
  qed
  obtain s where fs: "findIndexByVersion E ?pv = Inr s"
    using ap x by (auto simp: apply_phase_def split: sum.splits)
  obtain e where fe: "findIndexByVersion E v = Inr e"
    using ap x fs by (auto simp: apply_phase_def split: sum.splits)
  note sf = findIndexByVersion_Inr [OF fs]
  note ef = findIndexByVersion_Inr [OF fe]
  have walk: "faults w2 = [] \<and> n = (if number_less ?pv v then nat (e - s) else nat (s - e)) \<and>
      collection w2 =
        (if (if number_less ?pv v then s < e else e < s)
         then set_version v (collection (after_lock w)) else collection (after_lock w))"
  proof (cases "number_less ?pv v")
    case True
    then have "up_loop E (s + 1) e 0 (after_lock w) = ((None, n), w2)"
      using ap x fs fe by (simp add: apply_phase_def)
    then have "faults w2 = [] \<and> n = 0 + nat (e + 1 - (s + 1)) \<and>
      collection w2 =
        (if s + 1 \<le> e
         then set_version (version (migrations E ! nat e)) (collection (after_lock w))
         else collection (after_lock w))"
      using assms(1,2) ef(2) sf(1) by (intro up_loop_success) auto
    moreover have "version (migrations E ! nat e) = v" if "s < e"
      using that sf(1) by (intro ef(4)) simp
    ultimately show ?thesis using True by auto
  next
    case nless: False
    then have "down_loop E s e 0 (after_lock w) = ((None, n), w2)"
      using ap x fs fe by (simp add: apply_phase_def)
    then have "faults w2 = [] \<and> n = 0 + nat (s - e) \<and>
      collection w2 =
        (if e < s then set_version (version_before E (e + 1)) (collection (after_lock w))
         else collection (after_lock w))"
      using assms(1,2) ef(1) sf(2) by (intro down_loop_success) auto
    then show ?thesis using nless version_before_target [OF fe] by auto
  qed
  have ul: "unlock E w2 = (Inr (), after_unlock w2)"
    using assms(1) walk by (intro unlock_after) simp_all
  have tb: "try_block E ?pv v False (after_lock w) = ((None, n), after_unlock w2)"
    using ap x ul by (simp add: try_block_def)
  have r: "migrationsRun r = n" "w1 = after_unlock w2"
    using pm tb assms(3) by (auto simp: persisted_version_def)
  have moved: "if number_less ?pv v then s < e else e < s"
  proof (cases "0 < migrationsRun r")
    case True
    then show ?thesis using r(1) walk by (auto split: if_splits)
  next
    case no: False
    then have ok: "registry_ok E" using assms(5) by simp
    show ?thesis
    proof (cases "number_less ?pv v")
      case True
      then show ?thesis using index_order [OF ok fs fe] by simp
    next
      case nless: False
      have "?pv \<noteq> v" using False sf(7) by (auto simp: strict_equal_def)
      then have "number_less v ?pv"
        using nless sf(7) ef(7) by (simp add: number_less_iff)
      then show ?thesis using nless index_order [OF ok fe fs] by simp
    qed
  qed
  have "collection w2 = set_version v (collection (after_lock w))"
    using walk moved by (simp split: if_splits)
  then have "persisted_version w1 = v" "collection w1 \<noteq> None"
    by (simp_all add: r(2) persisted_version_def control_of_def set_version_def)
  then show ?thesis using walk r(2) ef(7) by (simp add: strict_equal_def)
qed

lemma migrateTo_resolved:
  assumes "dbConnection E" "migrations E \<noteq> []" "cmd \<noteq> CmdString []"
  shows "migrateTo E cmd w =
     (case priv_migrateTo E (resolved_target E cmd)
             (subcommand (parseCommand cmd) = Some ''rerun'') w of
        (Inl e, w1) \<Rightarrow> (Thrown e, w1)
      | (Inr result, w1) \<Rightarrow>
          (if subcommand (parseCommand cmd) = Some ''exit'' then ProcessExit 0
           else Returned result, w1))"
  using assms
  by (auto simp: migrateTo_def resolved_target_def Let_def split: prod.splits sum.splits)

lemma read_events_quiet:
  "EvLock \<notin> set (read_events w) \<and> (\<forall>d m. EvRun d m \<notin> set (read_events w))"
  by (simp add: read_events_def)

lemma after_read_again:
  "collection w \<noteq> None \<Longrightarrow> after_read w = w\<lparr>trace := trace w @ [EvFindOne]\<rparr>"
  by (cases "collection w") (simp_all add: after_read_def read_events_def control_of_def)

text \<open>
  C7 (as amended). With a connection and a driver that accepts the calls: when the
  persisted version equals the target by \<open>===\<close> (so it is not \<open>NaN\<close>), a call that
  is not a rerun returns a successful result with \<open>migrationsRun = 0\<close> after the read of
  the control document alone: the lock is not requested and no action is invoked. This holds
  of \<open>_migrateTo\<close>, and of \<open>migrateTo\<close> for a command that resolves to that target
  (with the subcommand \<open>exit\<close> the process then exits instead of returning). When a first
  call that is not a rerun returned a successful result, and it counted a step or the
  registry is sorted with versions greater than \<open>0\<close>, the second call to the same target
  is of this kind: it only reads the control document.
\<close>

theorem same_target_no_op:
  assumes "dbConnection E" "faults w = []"
  shows
    "(strict_equal (persisted_version w) v \<longrightarrow>
        priv_migrateTo E v False w =
          (Inr \<lparr>success = True, fromVersion = persisted_version w, toVersion = v,
                migrationsRun = 0, error = None\<rparr>, after_read w)) \<and>
     (migrations E \<noteq> [] \<and> cmd \<noteq> CmdString [] \<and>
      subcommand (parseCommand cmd) \<noteq> Some ''rerun'' \<and>
      strict_equal (persisted_version w) (resolved_target E cmd) \<longrightarrow>
        migrateTo E cmd w =
          (if subcommand (parseCommand cmd) = Some ''exit'' then ProcessExit 0
           else Returned \<lparr>success = True, fromVersion = persisted_version w,
                           toVersion = resolved_target E cmd, migrationsRun = 0,
                           error = None\<rparr>,
           after_read w)) \<and>
     trace (after_read w) = trace w @ read_events w \<and>
     EvLock \<notin> set (read_events w) \<and> (\<forall>d m. EvRun d m \<notin> set (read_events w)) \<and>
     (\<forall>r w1.
        priv_migrateTo E v False w = (Inr r, w1) \<and> success r \<and>
        (0 < migrationsRun r \<or> registry_ok E) \<longrightarrow>
        priv_migrateTo E v False w1 =
          (Inr \<lparr>success = True, fromVersion = v, toVersion = v, migrationsRun = 0,
                error = None\<rparr>,
           w1\<lparr>trace := trace w1 @ [EvFindOne]\<rparr>))"
  (is "?fast \<and> ?command \<and> ?events \<and> ?nolock \<and> ?nostep \<and> ?twice")
proof -
  have fast: ?fast using assms by (simp add: priv_migrateTo_fast)
  have command: ?command
  proof
    assume a: "migrations E \<noteq> [] \<and> cmd \<noteq> CmdString [] \<and>
      subcommand (parseCommand cmd) \<noteq> Some ''rerun'' \<and>
      strict_equal (persisted_version w) (resolved_target E cmd)"
    then have "priv_migrateTo E (resolved_target E cmd) False w =
          (Inr \<lparr>success = True, fromVersion = persisted_version w,
                toVersion = resolved_target E cmd, migrationsRun = 0, error = None\<rparr>,
           after_read w)"
      using assms by (intro priv_migrateTo_fast) simp_all
    then show "migrateTo E cmd w =
          (if subcommand (parseCommand cmd) = Some ''exit'' then ProcessExit 0
           else Returned \<lparr>success = True, fromVersion = persisted_version w,
                           toVersion = resolved_target E cmd, migrationsRun = 0,
                           error = None\<rparr>,
           after_read w)"
      using a migrateTo_resolved [OF assms(1), of cmd w] by simp
  qed
  have twice: ?twice
  proof (intro allI impI)
    fix r w1
    assume a: "priv_migrateTo E v False w = (Inr r, w1) \<and> success r \<and>
        (0 < migrationsRun r \<or> registry_ok E)"
    then have a1: "priv_migrateTo E v False w = (Inr r, w1)" and a2: "success r"
      and a3: "0 < migrationsRun r \<or> registry_ok E" by blast+
    have b: "faults w1 = [] \<and> strict_equal (persisted_version w1) v \<and>
        collection w1 \<noteq> None"
      using assms a1 a2 a3 by (rule successful_run_reaches_target)
    then have "priv_migrateTo E v False w1 =
          (Inr \<lparr>success = True, fromVersion = persisted_version w1, toVersion = v,
                migrationsRun = 0, error = None\<rparr>, after_read w1)"
      using assms(1) by (intro priv_migrateTo_fast) simp_all
    moreover have "persisted_version w1 = v" using b by (simp add: strict_equal_def)
    ultimately show "priv_migrateTo E v False w1 =
          (Inr \<lparr>success = True, fromVersion = v, toVersion = v, migrationsRun = 0,
                error = None\<rparr>,
           w1\<lparr>trace := trace w1 @ [EvFindOne]\<rparr>)"
      using b by (simp add: after_read_again)
  qed
  show ?thesis
    using fast command twice read_events_quiet [of w] by (intro conjI) simp_all
qed

text \<open>
  C7, witness: \<open>migrateTo('latest')\<close> at version \<open>2\<close> of two, with the control
  document locked by another run; and the second of two calls with target \<open>2\<close>, after
  the first has applied both migrations.
\<close>

theorem same_target_no_op_witness:
  "migrateTo (engine_of [migration_of 1 Resolves None, migration_of 2 Resolves None])
     (CmdString ''latest'') (world_of (Some (control_doc 2 True)) []) =
   (Returned \<lparr>success = True, fromVersion = Num 2, toVersion = Num 2, migrationsRun = 0,
              error = None\<rparr>,
    \<lparr>collection = Some (control_doc 2 True), faults = [], trace = [EvFindOne], now = 0\<rparr>) \<and>
   priv_migrateTo (engine_of [migration_of 1 Resolves None, migration_of 2 Resolves None])
     (Num 2) False
     \<lparr>collection = Some \<lparr>control_version = Num 2, locked = False, lockedAt = Some 0\<rparr>,
      faults = [],
      trace = [EvFindOne, EvSetControl, EvLock,
               EvRun Up (migration_of 1 Resolves None), EvUpdateVersion (Num 1),
               EvRun Up (migration_of 2 Resolves None), EvUpdateVersion (Num 2), EvUnlock],
      now = 0\<rparr> =
   (Inr \<lparr>success = True, fromVersion = Num 2, toVersion = Num 2, migrationsRun = 0,
         error = None\<rparr>,
    \<lparr>collection = Some \<lparr>control_version = Num 2, locked = False, lockedAt = Some 0\<rparr>,
     faults = [],
     trace = [EvFindOne, EvSetControl, EvLock,
              EvRun Up (migration_of 1 Resolves None), EvUpdateVersion (Num 1),
              EvRun Up (migration_of 2 Resolves None), EvUpdateVersion (Num 2), EvUnlock,
              EvFindOne],
     now = 0\<rparr>)"
proof -
  let ?E = "engine_of [migration_of 1 Resolves None, migration_of 2 Resolves None]"
  let ?wa = "world_of (Some (control_doc 2 True)) []"
  let ?wb = "world_of None []"
  let ?wc = "\<lparr>collection = Some \<lparr>control_version = Num 2, locked = False, lockedAt = Some 0\<rparr>,
      faults = [],
      trace = [EvFindOne, EvSetControl, EvLock,
               EvRun Up (migration_of 1 Resolves None), EvUpdateVersion (Num 1),
               EvRun Up (migration_of 2 Resolves None), EvUpdateVersion (Num 2), EvUnlock],
      now = 0\<rparr>"
  let ?r = "\<lparr>success = True, fromVersion = Num 0, toVersion = Num 2, migrationsRun = 2,
      error = None\<rparr>"
  have h1: "dbConnection ?E" by (simp add: example_defs)
  have fa: "faults ?wa = []" and fb: "faults ?wb = []" by (simp_all add: example_defs)
  have rt: "resolved_target ?E (CmdString ''latest'') = Num 2"
    by (simp add: resolved_target_def parse_latest element_at_def example_defs)
  have "migrations ?E \<noteq> [] \<and> CmdString ''latest'' \<noteq> CmdString [] \<and>
      subcommand (parseCommand (CmdString ''latest'')) \<noteq> Some ''rerun'' \<and>
      strict_equal (persisted_version ?wa) (resolved_target ?E (CmdString ''latest''))"
    unfolding rt by (simp add: parse_latest example_defs strict_equal_def)
  with same_target_no_op [OF h1 fa, of "Num 2" "CmdString ''latest''"]
  have one: "migrateTo ?E (CmdString ''latest'') ?wa =
      (if subcommand (parseCommand (CmdString ''latest'')) = Some ''exit'' then ProcessExit 0
       else Returned \<lparr>success = True, fromVersion = persisted_version ?wa,
                       toVersion = resolved_target ?E (CmdString ''latest''),
                       migrationsRun = 0, error = None\<rparr>,
       after_read ?wa)"
    by blast
  have first: "priv_migrateTo ?E (Num 2) False ?wb = (Inr ?r, ?wc)"
    by (simp add: run_defs example_defs)
  then have "priv_migrateTo ?E (Num 2) False ?wb = (Inr ?r, ?wc) \<and> success ?r \<and>
        (0 < migrationsRun ?r \<or> registry_ok ?E)"
    by simp
  with same_target_no_op [OF h1 fb, of "Num 2" "CmdString ''latest''"]
  have two: "priv_migrateTo ?E (Num 2) False ?wc =
          (Inr \<lparr>success = True, fromVersion = Num 2, toVersion = Num 2, migrationsRun = 0,
                error = None\<rparr>,
           ?wc\<lparr>trace := trace ?wc @ [EvFindOne]\<rparr>)"
    by (simp add: example_defs)
  show ?thesis
    using one two unfolding rt by (simp add: parse_latest example_defs)
qed

text \<open>
  C7, counterexample: \<open>add\<close> of the versions \<open>2\<close>, \<open>NaN\<close> and \<open>1\<close> leaves the
  registry in this order. At version \<open>1\<close>, \<open>migrateTo(2)\<close> locks, finds no step
  between the index of \<open>1\<close> and the index of \<open>2\<close>, unlocks and returns a successful
  result; version \<open>1\<close> stays persisted, and the second call does the same, lock
  included.
\<close>

theorem unsorted_registry_counterexample:
  "migrations
     (snd (add (snd (add (snd (add (engine_of [])
        \<lparr>arg_version = Some (Num 2), arg_name = None, arg_up = Some Resolves,
         arg_down = None\<rparr>))
        \<lparr>arg_version = Some NaN, arg_name = None, arg_up = Some Resolves,
         arg_down = None\<rparr>))
        \<lparr>arg_version = Some (Num 1), arg_name = None, arg_up = Some Resolves,
         arg_down = None\<rparr>)) =
     [migration_of 2 Resolves None,
      \<lparr>version = NaN, name = None, up = Some Resolves, down = None\<rparr>,
      migration_of 1 Resolves None] \<and>
   migrateTo
     (engine_of [migration_of 2 Resolves None,
                 \<lparr>version = NaN, name = None, up = Some Resolves, down = None\<rparr>,
                 migration_of 1 Resolves None])
     (CmdNumber (Num 2)) (world_of (Some (control_doc 1 False)) []) =
   (Returned \<lparr>success = True, fromVersion = Num 1, toVersion = Num 2, migrationsRun = 0,
              error = None\<rparr>,
    \<lparr>collection = Some \<lparr>control_version = Num 1, locked = False, lockedAt = Some 0\<rparr>,
     faults = [], trace = [EvFindOne, EvLock, EvUnlock], now = 0\<rparr>) \<and>
   migrateTo
     (engine_of [migration_of 2 Resolves None,
                 \<lparr>version = NaN, name = None, up = Some Resolves, down = None\<rparr>,
                 migration_of 1 Resolves None])
     (CmdNumber (Num 2))
     \<lparr>collection = Some \<lparr>control_version = Num 1, locked = False, lockedAt = Some 0\<rparr>,
      faults = [], trace = [EvFindOne, EvLock, EvUnlock], now = 0\<rparr> =
   (Returned \<lparr>success = True, fromVersion = Num 1, toVersion = Num 2, migrationsRun = 0,
              error = None\<rparr>,
    \<lparr>collection = Some \<lparr>control_version = Num 1, locked = False, lockedAt = Some 0\<rparr>,
     faults = [],
     trace = [EvFindOne, EvLock, EvUnlock, EvFindOne, EvLock, EvUnlock], now = 0\<rparr>)"
  by (simp add: add_def number_le_def sort_by_version_def sort_compare_def
      migrateTo_def parse_number run_defs example_defs)

end
